theory Spec2Isabelle
  imports Main "HOL-Library.Word"
begin

section \<open>Mood and Memory Assistant: the sketch \<open>Electrothon_29th_Aug.ino\<close>\<close>

text \<open>
  The sketch is single-threaded. Its globals are one record, passed through every function
  and returned updated. Everything the sketch writes to a peripheral (display, buzzer,
  tag reader, \<open>delay\<close>) is appended to the field \<open>trace\<close> of that record, in program order.
  Everything it reads from a peripheral (\<open>millis()\<close>, \<open>digitalRead\<close>, \<open>rtc.now()\<close>, the tag
  reader, \<open>random\<close>) is an argument of the function that reads it, so every theorem holds
  for all values the hardware may return.

  Integer types: \<open>unsigned long\<close> is 32 bits, \<open>uint8_t\<close> 8 bits, \<open>uint16_t\<close> 16 bits. The
  width of \<open>int\<close> depends on the board: 16 bits on the ATmega328 of the Arduino Nano named
  in the header of the sketch, 32 bits on larger boards. So \<open>int\<close> is \<open>'w word\<close>; a theorem
  that holds at every width is stated for \<open>'w\<close>, one that depends on the width for
  \<open>16 word\<close>, the \<open>int\<close> of the Nano.

  A function of the sketch that may not return, or whose behaviour C leaves undefined on
  some input, returns a \<open>fault\<close> there.
\<close>

subsection \<open>Machine types and the peripherals\<close>

type_synonym ulong = "32 word"
type_synonym uint8 = "8 word"
type_synonym uint16 = "16 word"

text \<open>\<open>int\<close>, of the board's width \<open>'w\<close>.\<close>

type_synonym 'w cint = "'w word"

datatype level = LOW | HIGH

text \<open>
  \<open>BufferOverrun\<close>: the sketch wrote past the end of a \<open>char\<close> array (undefined behaviour).
  \<open>StillRunning\<close>: a loop has not left after all the readings it was given.
\<close>

datatype fault = BufferOverrun | StillRunning

datatype pin_mode = OUTPUT | INPUT_PULLUP

text \<open>The writes of the sketch, one constructor for each library call it makes.\<close>

datatype event =
    PinMode nat pin_mode
  | DigitalWrite nat level
  | Delay nat
  | LcdInit
  | LcdBacklight
  | LcdClear
  | LcdSetCursor nat nat
  | LcdPrint string
  | SpiBegin
  | PcdInit
  | SerialBegin nat
  | RandomSeed nat
  | PiccHaltA
  | PcdStopCrypto1

text \<open>\<open>DateTime\<close> of RTClib, by its accessors: \<open>year()\<close> is \<open>uint16_t\<close>, the others \<open>uint8_t\<close>.\<close>

record DateTime =
  dt_year :: uint16
  dt_month :: uint8
  dt_day :: uint8
  dt_hour :: uint8
  dt_minute :: uint8
  dt_second :: uint8

record KnownItem =
  uidHex :: string
  itemName :: string
  lastScanned :: string

text \<open>The records take the type of \<open>int\<close> as their parameter; it is always a \<open>'w cint\<close>.\<close>

record 'i MedItem =
  name :: string
  hour :: uint8
  minute :: uint8
  pending :: bool
  lastAckYMD :: 'i

record 'i state =
  lastDebounceTime :: "ulong list"
  lastActivity :: ulong
  knownItems :: "KnownItem list"
  meds :: "'i MedItem list"
  lastScheduleCheck :: ulong
  lastHydrationHour :: 'i
  trace :: "event list"

definition BUZZER_PIN :: nat where "BUZZER_PIN = 8"
definition BTN_MEMORY_PIN :: nat where "BTN_MEMORY_PIN = 2"
definition BTN_MED_PIN :: nat where "BTN_MED_PIN = 3"
definition BTN_EX_PIN :: nat where "BTN_EX_PIN = 4"
definition BTN_SOS_PIN :: nat where "BTN_SOS_PIN = 5"

definition DEBOUNCE_MS :: ulong where "DEBOUNCE_MS = 200"
definition IDLE_MENU_MS :: ulong where "IDLE_MENU_MS = 15000"
definition SCHEDULE_CHECK_MS :: ulong where "SCHEDULE_CHECK_MS = 5000"

definition knownItems_init :: "KnownItem list" where
  "knownItems_init =
    [\<lparr>uidHex = ''6C433E06'', itemName = ''Keys'', lastScanned = ''00:00:00''\<rparr>,
     \<lparr>uidHex = ''05F7A904'', itemName = ''Medicine Box'', lastScanned = ''00:00:00''\<rparr>,
     \<lparr>uidHex = ''26B0A304'', itemName = ''Glasses'', lastScanned = ''00:00:00''\<rparr>]"

definition KNOWN_COUNT :: "'i state \<Rightarrow> nat" where
  "KNOWN_COUNT s = length (knownItems s)"

definition AFFS :: "string list" where
  "AFFS = [''You are strong!'', ''Proud of you!'', ''Well done!'', ''Keep healthy!'',
           ''One step at a time.'']"

definition AFF_COUNT :: uint8 where
  "AFF_COUNT = of_nat (length AFFS)"

definition meds_init :: "'w::len cint MedItem list" where
  "meds_init =
    [\<lparr>name = ''BP Tablet'', hour = 8, minute = 0, pending = False, lastAckYMD = 0\<rparr>,
     \<lparr>name = ''Vitamin D'', hour = 13, minute = 30, pending = False, lastAckYMD = 0\<rparr>,
     \<lparr>name = ''Insulin'', hour = 18, minute = 0, pending = False, lastAckYMD = 0\<rparr>,
     \<lparr>name = ''Calcium'', hour = 22, minute = 0, pending = False, lastAckYMD = 0\<rparr>]"

definition MED_COUNT :: "'i state \<Rightarrow> nat" where
  "MED_COUNT s = length (meds s)"

text \<open>The globals as the initialisers of the sketch leave them, before \<open>setup\<close>.\<close>

definition init_state :: "'w::len cint state" where
  "init_state =
    \<lparr>lastDebounceTime = [0, 0, 0, 0], lastActivity = 0, knownItems = knownItems_init,
     meds = meds_init, lastScheduleCheck = 0, lastHydrationHour = - 1, trace = []\<rparr>"

subsection \<open>Helpers\<close>

definition emit :: "event list \<Rightarrow> 'i state \<Rightarrow> 'i state" where
  "emit es s = s\<lparr>trace := trace s @ es\<rparr>"

definition beepMs :: "nat \<Rightarrow> event list" where
  "beepMs ms = [DigitalWrite BUZZER_PIN HIGH, Delay ms, DigitalWrite BUZZER_PIN LOW]"

definition shortBeep :: "event list" where "shortBeep = beepMs 100"
definition longBeep :: "event list" where "longBeep = beepMs 300"

text \<open>Decimal digits of a number, as \<open>lcd.print\<close> and \<open>%d\<close> write it.\<close>

fun decimal :: "nat \<Rightarrow> string" where
  "decimal n =
    (if n < 10 then [char_of (48 + n)] else decimal (n div 10) @ [char_of (48 + n mod 10)])"

declare decimal.simps [simp del]

text \<open>\<open>%02d\<close> and \<open>%04d\<close>: zero padding to a minimal width, never truncating.\<close>

definition padded :: "nat \<Rightarrow> nat \<Rightarrow> string" where
  "padded w n = replicate (w - length (decimal n)) CHR ''0'' @ decimal n"

definition hexDigit :: "uint8 \<Rightarrow> char" where
  "hexDigit d = (if d < 10 then char_of (48 + unat d) else char_of (65 + (unat d - 10)))"

unbundle bit_operations_syntax

fun uidToHex :: "uint8 list \<Rightarrow> string" where
  "uidToHex [] = []"
| "uidToHex (b # bs) =
    hexDigit (drop_bit 4 b AND 0x0F) # hexDigit (b AND 0x0F) # uidToHex bs"

text \<open>
  \<open>ymdNow\<close>: \<open>year()*10000 + month()*100 + day()\<close>, stored in an \<open>int\<close>. The arithmetic is
  that of the board's \<open>int\<close> width and wraps there.
\<close>

definition ymdNow :: "DateTime \<Rightarrow> 'w::len cint" where
  "ymdNow t = ucast (dt_year t) * 10000 + ucast (dt_month t) * 100 + ucast (dt_day t)"

text \<open>The characters that the format \<open>%02d:%02d:%02d\<close> produces for the clock.\<close>

definition hms :: "DateTime \<Rightarrow> string" where
  "hms t =
    padded 2 (unat (dt_hour t)) @ '':'' @ padded 2 (unat (dt_minute t)) @ '':'' @
    padded 2 (unat (dt_second t))"

text \<open>
  \<open>timeToStr\<close> is \<open>sprintf\<close> into the buffer of its caller, the 9 bytes of \<open>tbuf\<close>. More than
  8 characters (a clock field of 100 or more) are written past the end of \<open>tbuf\<close>: \<open>None\<close>.
\<close>

definition timeToStr :: "DateTime \<Rightarrow> string option" where
  "timeToStr t = (if length (hms t) < 9 then Some (hms t) else None)"

subsection \<open>Display\<close>

definition lcdMenu :: "event list" where
  "lcdMenu =
    [LcdClear, LcdSetCursor 0 0, LcdPrint ''1:Memory 2:Meds'',
     LcdSetCursor 0 1, LcdPrint ''3:Exerc  4:SOS '']"

definition showTwo :: "string \<Rightarrow> string \<Rightarrow> nat \<Rightarrow> event list" where
  "showTwo l1 l2 ms =
    [LcdClear, LcdSetCursor 0 0, LcdPrint l1, LcdSetCursor 0 1, LcdPrint l2, Delay ms]"

subsection \<open>Medicines\<close>

definition startMedPending :: "nat \<Rightarrow> 'i state \<Rightarrow> 'i state" where
  "startMedPending i s = s\<lparr>meds := (meds s)[i := (meds s ! i)\<lparr>pending := True\<rparr>]\<rparr>"

text \<open>The first \<open>for\<close> loop of \<open>checkMedicinesAuto\<close>, from index \<open>i\<close> on.\<close>

function dueLoop :: "DateTime \<Rightarrow> 'w cint \<Rightarrow> nat \<Rightarrow> 'w::len cint state \<Rightarrow> 'w cint state" where
  "dueLoop now ymd i s =
    (if i < MED_COUNT s then
       dueLoop now ymd (i + 1)
         (if \<not> pending (meds s ! i) then
            if dt_hour now = hour (meds s ! i) \<and> dt_minute now = minute (meds s ! i) then
              if lastAckYMD (meds s ! i) \<noteq> ymd then startMedPending i s else s
            else s
          else s)
     else s)"
  by pat_completeness auto
termination
  by (relation "measure (\<lambda>(now, ymd, i, s). MED_COUNT s - i)")
     (auto simp: MED_COUNT_def startMedPending_def)

declare dueLoop.simps [simp del]

definition twoDigits :: "uint8 \<Rightarrow> event list" where
  "twoDigits v = [LcdPrint (if v < 10 then ''0'' else ''''), LcdPrint (decimal (unat v))]"

definition medDue :: "'i MedItem \<Rightarrow> event list" where
  "medDue m =
    [LcdClear, LcdSetCursor 0 0, LcdPrint ''MED DUE:'', LcdSetCursor 9 0] @
    twoDigits (hour m) @ [LcdPrint '':''] @ twoDigits (minute m) @
    [LcdSetCursor 0 1, LcdPrint (name m)] @ longBeep @ [Delay 500]"

text \<open>The second \<open>for\<close> loop of \<open>checkMedicinesAuto\<close>: prompt for the first pending entry.\<close>

function promptLoop :: "nat \<Rightarrow> 'i state \<Rightarrow> 'i state" where
  "promptLoop i s =
    (if i < MED_COUNT s then
       if pending (meds s ! i) then emit (medDue (meds s ! i)) s
       else promptLoop (i + 1) s
     else s)"
  by pat_completeness auto
termination
  by (relation "measure (\<lambda>(i, s). MED_COUNT s - i)") auto

declare promptLoop.simps [simp del]

definition hydrationNudge :: "event list" where
  "hydrationNudge =
    [LcdClear, LcdSetCursor 0 0, LcdPrint ''Hydration'',
     LcdSetCursor 0 1, LcdPrint ''Take a sip!  ''] @
    shortBeep @ [Delay 200] @ shortBeep @ [Delay 800] @ lcdMenu"

definition hydrationCheck :: "DateTime \<Rightarrow> 'w::len cint state \<Rightarrow> 'w cint state" where
  "hydrationCheck now s =
    (if dt_minute now = 0 \<and> lastHydrationHour s \<noteq> ucast (dt_hour now) then
       emit hydrationNudge (s\<lparr>lastHydrationHour := ucast (dt_hour now)\<rparr>)
     else s)"

definition checkMedicinesAuto :: "DateTime \<Rightarrow> 'w::len cint state \<Rightarrow> 'w cint state" where
  "checkMedicinesAuto now s =
    promptLoop 0 (dueLoop now (ymdNow now) 0 (hydrationCheck now s))"

text \<open>
  \<open>confirmFirstPendingMed\<close>, its first loop from index \<open>i\<close> on: \<open>Some\<close> is the \<open>return\<close> inside
  the loop, \<open>None\<close> is the loop falling through. \<open>a\<close> is what \<open>random(0, AFF_COUNT)\<close>
  returned, \<open>now\<close> what \<open>rtc.now()\<close> returned.
\<close>

definition taken :: "'i MedItem \<Rightarrow> uint8 \<Rightarrow> event list" where
  "taken m a =
    [LcdClear, LcdSetCursor 0 0, LcdPrint ''Taken: '', LcdPrint (name m),
     LcdSetCursor 0 1, LcdPrint (AFFS ! unat a)] @
    shortBeep @ [Delay 150] @ shortBeep @ [Delay 1200] @ lcdMenu"

function confirmLoop ::
  "DateTime \<Rightarrow> uint8 \<Rightarrow> nat \<Rightarrow> 'w::len cint state \<Rightarrow> 'w cint state option" where
  "confirmLoop now a i s =
    (if i < MED_COUNT s then
       if pending (meds s ! i) then
         Some (emit (taken (meds s ! i) a)
           (s\<lparr>meds := (meds s)[i := (meds s ! i)\<lparr>pending := False, lastAckYMD := ymdNow now\<rparr>]\<rparr>))
       else confirmLoop now a (i + 1) s
     else None)"
  by pat_completeness auto
termination
  by (relation "measure (\<lambda>(now, a, i, s). MED_COUNT s - i)") auto

declare confirmLoop.simps [simp del]

text \<open>The second loop: \<open>nextIdx\<close>, or \<open>-1\<close> when no entry is later than \<open>now\<close>.\<close>

function nextLoop :: "DateTime \<Rightarrow> nat \<Rightarrow> 'i state \<Rightarrow> int" where
  "nextLoop now i s =
    (if i < MED_COUNT s then
       if dt_hour now < hour (meds s ! i) \<or>
          (dt_hour now = hour (meds s ! i) \<and> dt_minute now < minute (meds s ! i))
       then int i
       else nextLoop now (i + 1) s
     else - 1)"
  by pat_completeness auto
termination
  by (relation "measure (\<lambda>(now, i, s). MED_COUNT s - i)") auto

declare nextLoop.simps [simp del]

definition nextMed :: "'i MedItem \<Rightarrow> event list" where
  "nextMed m =
    [LcdClear, LcdSetCursor 0 0, LcdPrint ''Next Med:'', LcdSetCursor 0 1,
     LcdPrint (name m), LcdPrint '' @''] @
    twoDigits (hour m) @ [LcdPrint '':''] @ twoDigits (minute m) @ [Delay 1400] @ lcdMenu"

definition confirmFirstPendingMed ::
  "DateTime \<Rightarrow> uint8 \<Rightarrow> 'w::len cint state \<Rightarrow> 'w cint state" where
  "confirmFirstPendingMed now a s =
    (case confirmLoop now a 0 s of
       Some s' \<Rightarrow> s'
     | None \<Rightarrow>
         (let nextIdx = nextLoop now 0 s;
              nextIdx = (if nextIdx = - 1 then 0 else nextIdx)
          in emit (nextMed (meds s ! nat nextIdx)) s))"

subsection \<open>Buttons\<close>

text \<open>
  \<open>pins\<close> is what \<open>digitalRead\<close> returns for each pin at the moment of the call, \<open>now\<close> what
  \<open>millis()\<close> returns.
\<close>

definition readBtnOnce ::
  "(nat \<Rightarrow> level) \<Rightarrow> ulong \<Rightarrow> nat \<Rightarrow> nat \<Rightarrow> 'i state \<Rightarrow> bool \<times> 'i state" where
  "readBtnOnce pins now pin idx s =
    (if pins pin = LOW then
       if now - lastDebounceTime s ! idx > DEBOUNCE_MS then
         (True,
          emit shortBeep
            (s\<lparr>lastDebounceTime := (lastDebounceTime s)[idx := now], lastActivity := now\<rparr>))
       else (False, s)
     else (False, s))"

subsection \<open>Memory (tag reader)\<close>

definition memoryPromptScan :: "event list" where
  "memoryPromptScan = showTwo ''Memory Help'' ''Show tag near'' 1000"

text \<open>
  A C string is the list of its characters before the terminating NUL. \<open>strcasecmp\<close>
  compares the lower-cased characters in turn, the end of a string counting as NUL.
\<close>

definition tolower :: "char \<Rightarrow> char" where
  "tolower c =
    (if 65 \<le> (of_char c :: nat) \<and> (of_char c :: nat) \<le> 90 then char_of (of_char c + 32 :: nat)
     else c)"

fun strcasecmp :: "string \<Rightarrow> string \<Rightarrow> int" where
  "strcasecmp [] [] = 0"
| "strcasecmp [] (b # bs) = - int (of_char (tolower b))"
| "strcasecmp (a # as) [] = int (of_char (tolower a))"
| "strcasecmp (a # as) (b # bs) =
    (if tolower a = tolower b then strcasecmp as bs
     else int (of_char (tolower a)) - int (of_char (tolower b)))"

text \<open>The lookup loop of \<open>handleRFID_Auto\<close>, from index \<open>i\<close> on: \<open>idx\<close>, or \<open>-1\<close>.\<close>

function findItem :: "string \<Rightarrow> nat \<Rightarrow> 'i state \<Rightarrow> int" where
  "findItem uid i s =
    (if i < KNOWN_COUNT s then
       if strcasecmp uid (uidHex (knownItems s ! i)) = 0 then int i
       else findItem uid (i + 1) s
     else - 1)"
  by pat_completeness auto
termination
  by (relation "measure (\<lambda>(uid, i, s). KNOWN_COUNT s - i)") auto

declare findItem.simps [simp del]

definition foundTag :: "KnownItem \<Rightarrow> event list" where
  "foundTag k =
    [LcdClear, LcdSetCursor 0 0, LcdPrint ''Found: '', LcdPrint (itemName k),
     LcdSetCursor 0 1, LcdPrint ''Last: '', LcdPrint (lastScanned k)]"

definition unknownTag :: "string \<Rightarrow> event list" where
  "unknownTag uid =
    [LcdClear, LcdSetCursor 0 0, LcdPrint ''Unknown Tag'',
     LcdSetCursor 0 1, LcdPrint ''UID: '', LcdPrint uid]"

text \<open>
  Lines 169 to 188: the token is resolved and rendered. \<open>uidToHex\<close> writes two characters
  for each byte and a NUL into the 32 bytes of \<open>uid\<close>, and \<open>timeToStr\<close> writes into the 9
  bytes of \<open>tbuf\<close>; either can run past its array, and then the result is \<open>None\<close>.
  \<open>snprintf\<close> into the 9 bytes of \<open>lastScanned\<close> keeps at most 8 characters.
\<close>

definition resolveTag :: "uint8 list \<Rightarrow> DateTime \<Rightarrow> 'i state \<Rightarrow> 'i state option" where
  "resolveTag bytes now s =
    (if 32 < 2 * length bytes + 1 then None
     else
       let uid = uidToHex bytes;
           idx = findItem uid 0 s
       in case timeToStr now of
            None \<Rightarrow> None
          | Some tbuf \<Rightarrow>
              Some (if idx \<ge> 0 then
                      let s' = s\<lparr>knownItems :=
                                 (knownItems s)[nat idx :=
                                   (knownItems s ! nat idx)\<lparr>lastScanned := take 8 tbuf\<rparr>]\<rparr>
                      in emit (foundTag (knownItems s' ! nat idx)) s'
                    else emit (unknownTag uid) s))"

text \<open>
  One turn of the presence loop reads: whether the reader returned a token, \<open>millis()\<close>
  for \<open>lastSeen\<close> (read only after a token), \<open>millis()\<close> for the 300 ms test, and the SOS
  line.
\<close>

record poll =
  card_read :: bool
  t_read :: ulong
  t_check :: ulong
  sos_line :: level

text \<open>
  The \<open>while (true)\<close> of \<open>handleRFID_Auto\<close>, run on the readings of its turns. \<open>None\<close>: the
  loop has not left after all the readings given.
\<close>

fun presenceLoop :: "ulong \<Rightarrow> poll list \<Rightarrow> 'i state \<Rightarrow> 'i state option" where
  "presenceLoop lastSeen [] s = None"
| "presenceLoop lastSeen (p # ps) s =
    (let lastSeen = (if card_read p then t_read p else lastSeen)
     in if t_check p - lastSeen > 300 then Some s
        else if sos_line p = LOW then Some s
        else presenceLoop lastSeen ps (emit [Delay 20] s))"

text \<open>
  \<open>tag\<close> is \<open>Some\<close> of the bytes of \<open>rfid.uid\<close> when
  \<open>PICC_IsNewCardPresent() && PICC_ReadCardSerial()\<close> holds, \<open>t0\<close> the first \<open>millis()\<close>.
\<close>

definition handleRFID_Auto ::
  "uint8 list option \<Rightarrow> DateTime \<Rightarrow> ulong \<Rightarrow> poll list \<Rightarrow> 'i state \<Rightarrow> fault + 'i state"
  where
  "handleRFID_Auto tag now t0 polls s =
    (case tag of
       None \<Rightarrow> Inr s
     | Some bytes \<Rightarrow>
         (case resolveTag bytes now s of
            None \<Rightarrow> Inl BufferOverrun
          | Some r \<Rightarrow>
              (case presenceLoop t0 polls (emit [DigitalWrite BUZZER_PIN HIGH] r) of
                 None \<Rightarrow> Inl StillRunning
               | Some s' \<Rightarrow>
                   Inr (emit ([DigitalWrite BUZZER_PIN LOW, PiccHaltA, PcdStopCrypto1] @ lcdMenu)
                         s'))))"

subsection \<open>Exercise\<close>

definition breathCycle :: "event list" where
  "breathCycle =
    [LcdClear, LcdSetCursor 0 0, LcdPrint ''Inhale...'', LcdSetCursor 0 1, LcdPrint ''4 sec''] @
    shortBeep @ [Delay 4000] @
    [LcdClear, LcdSetCursor 0 0, LcdPrint ''Hold...'', LcdSetCursor 0 1, LcdPrint ''5 sec'',
     Delay 5000] @
    [LcdClear, LcdSetCursor 0 0, LcdPrint ''Exhale...'', LcdSetCursor 0 1, LcdPrint ''4 sec''] @
    longBeep @ [Delay 4000]"

definition exerciseFlow :: "event list" where
  "exerciseFlow =
    [LcdClear, LcdSetCursor 0 0, LcdPrint ''Breathing 4-5-4'', LcdSetCursor 0 1,
     LcdPrint ''Cycle x2'', Delay 800] @
    concat (replicate 2 breathCycle) @
    [LcdClear, LcdSetCursor 0 0, LcdPrint ''Well done!'', LcdSetCursor 0 1,
     LcdPrint ''Hydration: sip''] @
    shortBeep @ [Delay 200] @ shortBeep @ [Delay 1200] @ lcdMenu"

subsection \<open>SOS\<close>

definition SOS_DURATION :: ulong where "SOS_DURATION = 5000"

definition sosOpening :: "event list" where
  "sosOpening =
    [LcdClear, LcdSetCursor 0 0, LcdPrint ''!!! SOS ALERT !!!'', LcdSetCursor 0 1,
     LcdPrint ''Sending Signal..'', Delay 600]"

definition sosPattern :: "event list" where
  "sosPattern =
    shortBeep @ [Delay 200, Delay 300] @ longBeep @ [Delay 200, Delay 300] @
    shortBeep @ [Delay 200, Delay 300]"

definition sosClosing :: "event list" where
  "sosClosing =
    [LcdClear, LcdSetCursor 0 0, LcdPrint ''SOS Ended'', LcdSetCursor 0 1,
     LcdPrint ''Stay safe'', Delay 1500] @ lcdMenu"

text \<open>
  The \<open>while\<close> of \<open>sosFlow\<close> on the readings of \<open>millis()\<close> in its condition. \<open>None\<close>: the
  loop has not left after all the readings given.
\<close>

fun sosLoop :: "ulong \<Rightarrow> ulong list \<Rightarrow> 'i state \<Rightarrow> 'i state option" where
  "sosLoop start [] s = None"
| "sosLoop start (t # ts) s =
    (if t - start < SOS_DURATION then sosLoop start ts (emit sosPattern s) else Some s)"

definition sosFlow :: "ulong \<Rightarrow> ulong list \<Rightarrow> 'i state \<Rightarrow> 'i state option" where
  "sosFlow start ts s =
    (case sosLoop start ts (emit sosOpening s) of
       None \<Rightarrow> None
     | Some s' \<Rightarrow> Some (emit sosClosing s'))"

subsection \<open>Setup\<close>

definition days :: "string list" where
  "days = [''Sun'', ''Mon'', ''Tue'', ''Wed'', ''Thu'', ''Fri'', ''Sat'']"

text \<open>
  \<open>w\<close> is what \<open>dayOfTheWeek()\<close> returned (RTClib returns a value below 7). \<open>snprintf\<close>
  into the 17 bytes of a line keeps at most 16 characters.
\<close>

definition lcdStartup :: "DateTime \<Rightarrow> nat \<Rightarrow> event list" where
  "lcdStartup now w =
    (let line1 = take 16 (days ! w @ '' '' @ padded 4 (unat (dt_year now)) @ ''-'' @
                   padded 2 (unat (dt_month now)) @ ''-'' @ padded 2 (unat (dt_day now)));
         line2 = take 16 (hms now)
     in [LcdClear, LcdSetCursor 0 0, LcdPrint line1, LcdSetCursor 0 1, LcdPrint line2,
         Delay 1800] @ lcdMenu)"

definition setupPins :: "nat \<Rightarrow> event list" where
  "setupPins a0 =
    [PinMode BUZZER_PIN OUTPUT, DigitalWrite BUZZER_PIN LOW,
     PinMode BTN_MEMORY_PIN INPUT_PULLUP, PinMode BTN_MED_PIN INPUT_PULLUP,
     PinMode BTN_EX_PIN INPUT_PULLUP, PinMode BTN_SOS_PIN INPUT_PULLUP,
     LcdInit, LcdBacklight, SpiBegin, PcdInit, SerialBegin 9600, Delay 50, RandomSeed a0]"

text \<open>
  \<open>setup\<close> of the sketch. \<open>a0\<close> is \<open>analogRead(A0)\<close>, \<open>rtcBegin\<close> the result of \<open>rtc.begin()\<close>, \<open>lostPower\<close> that of
  \<open>rtc.lostPower()\<close> (asked only after a successful \<open>begin\<close>), \<open>now\<close> and \<open>w\<close> the clock as
  \<open>lcdStartup\<close> reads it, \<open>t\<close> the final \<open>millis()\<close>.
\<close>

definition setup_sketch ::
  "nat \<Rightarrow> bool \<Rightarrow> bool \<Rightarrow> DateTime \<Rightarrow> nat \<Rightarrow> ulong \<Rightarrow> 'i state \<Rightarrow> 'i state" where
  "setup_sketch a0 rtcBegin lostPower now w t s =
    (let s1 = emit (setupPins a0) s;
         s2 = (if \<not> rtcBegin then emit (showTwo ''RTC not found'' ''Check wiring'' 2500) s1
               else if lostPower then emit (showTwo ''RTC lost power'' ''Set time'' 1800) s1
               else s1);
         s3 = emit (lcdStartup now w) s2
     in s3\<lparr>lastActivity := t\<rparr>)"

subsection \<open>Loop\<close>

text \<open>Everything one pass of \<open>loop\<close> reads, in the order of the reads.\<close>

record loop_in =
  rfid_card :: "uint8 list option"
  rfid_now :: DateTime
  rfid_seen :: ulong
  rfid_polls :: "poll list"
  sched_t :: ulong
  sched_t2 :: ulong
  sched_now :: DateTime
  mem_pins :: "nat \<Rightarrow> level"
  mem_t :: ulong
  med_pins :: "nat \<Rightarrow> level"
  med_t :: ulong
  med_now :: DateTime
  med_rand :: uint8
  ex_pins :: "nat \<Rightarrow> level"
  ex_t :: ulong
  sos_pins :: "nat \<Rightarrow> level"
  sos_t :: ulong
  sos_start :: ulong
  sos_ts :: "ulong list"
  idle_t :: ulong
  idle_t2 :: ulong

text \<open>Lines 401 to 404: the throttled scheduler check.\<close>

definition loop_schedule :: "loop_in \<Rightarrow> 'w::len cint state \<Rightarrow> 'w cint state" where
  "loop_schedule x s =
    (if sched_t x - lastScheduleCheck s \<ge> SCHEDULE_CHECK_MS then
       checkMedicinesAuto (sched_now x) (s\<lparr>lastScheduleCheck := sched_t2 x\<rparr>)
     else s)"

text \<open>Lines 407 to 415: the three debounced buttons.\<close>

definition loop_memory :: "loop_in \<Rightarrow> 'i state \<Rightarrow> 'i state" where
  "loop_memory x s =
    (case readBtnOnce (mem_pins x) (mem_t x) BTN_MEMORY_PIN 0 s of
       (True, s') \<Rightarrow> emit memoryPromptScan s'
     | (False, s') \<Rightarrow> s')"

definition loop_med :: "loop_in \<Rightarrow> 'w::len cint state \<Rightarrow> 'w cint state" where
  "loop_med x s =
    (case readBtnOnce (med_pins x) (med_t x) BTN_MED_PIN 1 s of
       (True, s') \<Rightarrow> confirmFirstPendingMed (med_now x) (med_rand x) s'
     | (False, s') \<Rightarrow> s')"

definition loop_exercise :: "loop_in \<Rightarrow> 'i state \<Rightarrow> 'i state" where
  "loop_exercise x s =
    (case readBtnOnce (ex_pins x) (ex_t x) BTN_EX_PIN 2 s of
       (True, s') \<Rightarrow> emit exerciseFlow s'
     | (False, s') \<Rightarrow> s')"

text \<open>Lines 417 to 423: the SOS line, checked inline.\<close>

definition loop_sos :: "loop_in \<Rightarrow> 'i state \<Rightarrow> 'i state option" where
  "loop_sos x s =
    (if sos_pins x BTN_SOS_PIN = LOW then
       if sos_t x - lastDebounceTime s ! 3 > DEBOUNCE_MS then
         sosFlow (sos_start x) (sos_ts x) (s\<lparr>lastDebounceTime := (lastDebounceTime s)[3 := sos_t x]\<rparr>)
       else Some s
     else Some s)"

text \<open>Lines 426 to 431: the idle menu refresh and the tick.\<close>

definition loop_idle :: "loop_in \<Rightarrow> 'i state \<Rightarrow> 'i state" where
  "loop_idle x s =
    emit [Delay 20]
      (if idle_t x - lastActivity s > IDLE_MENU_MS then (emit lcdMenu s)\<lparr>lastActivity := idle_t2 x\<rparr>
       else s)"

definition loop :: "loop_in \<Rightarrow> 'w::len cint state \<Rightarrow> fault + 'w cint state" where
  "loop x s =
    (case handleRFID_Auto (rfid_card x) (rfid_now x) (rfid_seen x) (rfid_polls x) s of
       Inl f \<Rightarrow> Inl f
     | Inr s1 \<Rightarrow>
         (case loop_sos x (loop_exercise x (loop_med x (loop_memory x (loop_schedule x s1)))) of
            None \<Rightarrow> Inl StillRunning
          | Some s2 \<Rightarrow> Inr (loop_idle x s2)))"

text \<open>The Arduino core calls \<open>setup\<close> once and then \<open>loop\<close> again and again.\<close>

fun run :: "loop_in list \<Rightarrow> 'w::len cint state \<Rightarrow> fault + 'w cint state" where
  "run [] s = Inr s"
| "run (x # xs) s = (case loop x s of Inl f \<Rightarrow> Inl f | Inr s' \<Rightarrow> run xs s')"

subsection \<open>Predicates used by the properties\<close>

text \<open>Entry \<open>k\<close> is the pending entry of lowest index.\<close>

definition firstPendingAt :: "'i MedItem list \<Rightarrow> nat \<Rightarrow> bool" where
  "firstPendingAt ms k \<longleftrightarrow> k < length ms \<and> pending (ms ! k) \<and> (\<forall>j<k. \<not> pending (ms ! j))"

text \<open>The table after entry \<open>k\<close> has been acknowledged at \<open>now\<close>.\<close>

definition acknowledge ::
  "DateTime \<Rightarrow> nat \<Rightarrow> 'w::len cint MedItem list \<Rightarrow> 'w cint MedItem list" where
  "acknowledge now k ms = ms[k := (ms ! k)\<lparr>pending := False, lastAckYMD := ymdNow now\<rparr>]"

text \<open>The entry is scheduled strictly later in the day than \<open>now\<close>.\<close>

definition later :: "DateTime \<Rightarrow> 'i MedItem \<Rightarrow> bool" where
  "later now m \<longleftrightarrow>
    dt_hour now < hour m \<or> (dt_hour now = hour m \<and> dt_minute now < minute m)"

text \<open>The condition under which the first loop of \<open>checkMedicinesAuto\<close> marks an entry.\<close>

definition dueAt :: "DateTime \<Rightarrow> 'i \<Rightarrow> 'i MedItem \<Rightarrow> bool" where
  "dueAt now ymd m \<longleftrightarrow>
    \<not> pending m \<and> dt_hour now = hour m \<and> dt_minute now = minute m \<and> lastAckYMD m \<noteq> ymd"

text \<open>
  The entry is due at \<open>now\<close>: not pending, scheduled at this hour and minute, and its
  last acknowledged date is not today's, both dates as \<open>ymdNow\<close> encodes them.
\<close>

definition due :: "DateTime \<Rightarrow> 'w::len cint MedItem \<Rightarrow> bool" where
  "due now m \<longleftrightarrow>
    \<not> pending m \<and> dt_hour now = hour m \<and> dt_minute now = minute m \<and>
    lastAckYMD m \<noteq> ymdNow now"

definition sameDay :: "DateTime \<Rightarrow> DateTime \<Rightarrow> bool" where
  "sameDay t u \<longleftrightarrow> dt_year t = dt_year u \<and> dt_month t = dt_month u \<and> dt_day t = dt_day u"

subsection \<open>Sample inputs\<close>

definition at_0800 :: DateTime where
  "at_0800 =
    \<lparr>dt_year = 2025, dt_month = 8, dt_day = 29, dt_hour = 8, dt_minute = 0, dt_second = 0\<rparr>"

definition jun24_0800 :: DateTime where
  "jun24_0800 =
    \<lparr>dt_year = 2025, dt_month = 6, dt_day = 24, dt_hour = 8, dt_minute = 0, dt_second = 0\<rparr>"

definition jan29_0800 :: DateTime where
  "jan29_0800 =
    \<lparr>dt_year = 2025, dt_month = 1, dt_day = 29, dt_hour = 8, dt_minute = 0, dt_second = 0\<rparr>"

definition dec01_2038_0800 :: DateTime where
  "dec01_2038_0800 =
    \<lparr>dt_year = 2038, dt_month = 12, dt_day = 1, dt_hour = 8, dt_minute = 0, dt_second = 0\<rparr>"

definition at_080030 :: DateTime where
  "at_080030 =
    \<lparr>dt_year = 2025, dt_month = 8, dt_day = 29, dt_hour = 8, dt_minute = 0, dt_second = 30\<rparr>"


text \<open>Every line reads pressed, and every line reads released.\<close>

definition allLow :: "nat \<Rightarrow> level" where
  "allLow p = LOW"

definition allHigh :: "nat \<Rightarrow> level" where
  "allHigh p = HIGH"

text \<open>Entry \<open>k\<close> is the first entry of the table, in table order, later than \<open>now\<close>.\<close>

definition firstLaterAt :: "DateTime \<Rightarrow> 'i MedItem list \<Rightarrow> nat \<Rightarrow> bool" where
  "firstLaterAt now ms k \<longleftrightarrow> k < length ms \<and> later now (ms ! k) \<and> (\<forall>j<k. \<not> later now (ms ! j))"

text \<open>No entry of the table is pending.\<close>

definition nonePending :: "'i MedItem list \<Rightarrow> bool" where
  "nonePending ms \<longleftrightarrow> list_all (\<lambda>m. \<not> pending m) ms"

text \<open>Hour and minute as one number that orders the entries by time of day.\<close>

definition schedKey :: "'i MedItem \<Rightarrow> nat" where
  "schedKey m = unat (hour m) * 256 + unat (minute m)"

definition at_0900 :: DateTime where
  "at_0900 =
    \<lparr>dt_year = 2025, dt_month = 8, dt_day = 29, dt_hour = 9, dt_minute = 0, dt_second = 0\<rparr>"

text \<open>
  Case-insensitive exact match: the two strings have the same length and hold, position by
  position, the same letter.
\<close>

definition upperCase :: "char \<Rightarrow> bool" where
  "upperCase c \<longleftrightarrow> 65 \<le> (of_char c :: nat) \<and> (of_char c :: nat) \<le> 90"

text \<open>
  Two characters are the same letter when they are equal or one is an upper-case ASCII
  letter (\<open>A\<close> to \<open>Z\<close>, codes 65 to 90) and the other its lower-case form (code plus 32).
\<close>

definition sameLetter :: "char \<Rightarrow> char \<Rightarrow> bool" where
  "sameLetter x y \<longleftrightarrow>
    x = y \<or> (upperCase x \<and> (of_char y :: nat) = of_char x + 32) \<or>
    (upperCase y \<and> (of_char x :: nat) = of_char y + 32)"

definition ciMatch :: "string \<Rightarrow> string \<Rightarrow> bool" where
  "ciMatch a b \<longleftrightarrow> list_all2 sameLetter a b"

text \<open>Entry \<open>k\<close> is the first entry of the table whose token matches \<open>uid\<close>.\<close>

definition firstMatchAt :: "string \<Rightarrow> KnownItem list \<Rightarrow> nat \<Rightarrow> bool" where
  "firstMatchAt uid items k \<longleftrightarrow>
    k < length items \<and> ciMatch uid (uidHex (items ! k)) \<and>
    (\<forall>j<k. \<not> ciMatch uid (uidHex (items ! j)))"


text \<open>No token of the table contains the NUL character (they are C strings).\<close>

definition cStrings :: "KnownItem list \<Rightarrow> bool" where
  "cStrings items \<longleftrightarrow> list_all (\<lambda>k. CHR 0x00 \<notin> set (uidHex k)) items"

text \<open>
  The last-seen time of the presence loop after the given turns: that of the latest turn
  that read a token, or the starting value.
\<close>

definition lastSeenAfter :: "ulong \<Rightarrow> poll list \<Rightarrow> ulong" where
  "lastSeenAfter t0 ps = fold (\<lambda>p ls. if card_read p then t_read p else ls) ps t0"

text \<open>
  In turn \<open>k\<close> no token has been read for more than 300 ms, or the SOS line reads pressed.
\<close>

definition leavesTurn :: "ulong \<Rightarrow> poll list \<Rightarrow> nat \<Rightarrow> bool" where
  "leavesTurn t0 ps k \<longleftrightarrow>
    t_check (ps ! k) - lastSeenAfter t0 (take (Suc k) ps) > 300 \<or> sos_line (ps ! k) = LOW"

definition firstLeaveAt :: "ulong \<Rightarrow> poll list \<Rightarrow> nat \<Rightarrow> bool" where
  "firstLeaveAt t0 ps k \<longleftrightarrow>
    k < length ps \<and> leavesTurn t0 ps k \<and> (\<forall>j<k. \<not> leavesTurn t0 ps j)"

text \<open>The arrays of \<open>handleRFID_Auto\<close> are large enough for the token and for the clock.\<close>

definition tokenFits :: "uint8 list \<Rightarrow> bool" where
  "tokenFits bytes \<longleftrightarrow> length bytes \<le> 15"

definition clockFits :: "DateTime \<Rightarrow> bool" where
  "clockFits now \<longleftrightarrow> dt_hour now < 100 \<and> dt_minute now < 100 \<and> dt_second now < 100"



definition keysTag :: "uint8 list" where
  "keysTag = [0x6C, 0x43, 0x3E, 0x06]"



text \<open>Two turns: a token is read, then the SOS line reads pressed 40 ms later.\<close>

definition sosTurns :: "poll list" where
  "sosTurns =
    [\<lparr>card_read = True, t_read = 1010, t_check = 1012, sos_line = HIGH\<rparr>,
     \<lparr>card_read = True, t_read = 1050, t_check = 1052, sos_line = LOW\<rparr>]"

text \<open>
  The alert of \<open>sosFlow\<close> occurs among the events: its banner and its \<open>delay(600)\<close>, which
  no other code of the sketch writes.
\<close>

definition sosAlertIn :: "event list \<Rightarrow> bool" where
  "sosAlertIn es \<longleftrightarrow> Delay 600 \<in> set es \<and> LcdPrint ''!!! SOS ALERT !!!'' \<in> set es"

text \<open>
  Readings of one pass of \<open>loop\<close>. \<open>quietPass\<close>: no token, the scheduler not yet due, every
  line released, no idle time-out. \<open>sosPass\<close>: the same with the SOS line pressed at 5000 ms
  and the idle time-out passed afterwards. \<open>tagSosPass\<close>: before that, a tag session that
  the SOS line ends.
\<close>

definition quietPass :: loop_in where
  "quietPass =
    \<lparr>rfid_card = None, rfid_now = at_0900, rfid_seen = 0, rfid_polls = [],
     sched_t = 1000, sched_t2 = 1000, sched_now = at_0900,
     mem_pins = allHigh, mem_t = 1000, med_pins = allHigh, med_t = 1000, med_now = at_0900,
     med_rand = 0, ex_pins = allHigh, ex_t = 1000,
     sos_pins = allHigh, sos_t = 1000, sos_start = 1000, sos_ts = [],
     idle_t = 1000, idle_t2 = 1000\<rparr>"

definition sosPass :: loop_in where
  "sosPass =
    quietPass\<lparr>sos_pins := allLow, sos_t := 5000, sos_start := 5600, sos_ts := [5600, 11000],
      idle_t := 16000, idle_t2 := 16001\<rparr>"

definition tagSosPass :: loop_in where
  "tagSosPass = sosPass\<lparr>rfid_card := Some keysTag, rfid_seen := 1000, rfid_polls := sosTurns\<rparr>"

text \<open>The tag session ended by the SOS line, which is released again at the SOS check.\<close>

definition tagOnlyPass :: loop_in where
  "tagOnlyPass = tagSosPass\<lparr>sos_pins := allHigh\<rparr>"

text \<open>
  Three passes of one morning: the scheduler check at 08:00, the medicine button thirty
  seconds later, and two more scheduler checks on the same day, the first still at 08:00.
\<close>

definition duePass :: loop_in where
  "duePass = quietPass\<lparr>sched_t := 6000, sched_t2 := 6001, sched_now := at_0800\<rparr>"

definition ackPass :: loop_in where
  "ackPass = quietPass\<lparr>sched_t := 7000, sched_t2 := 7000, med_pins := allLow, med_t := 7000,
     med_now := at_080030, med_rand := 2\<rparr>"

definition recheckPass :: loop_in where
  "recheckPass = quietPass\<lparr>sched_t := 12000, sched_t2 := 12001, sched_now := at_080030\<rparr>"

definition laterPass :: loop_in where
  "laterPass = quietPass\<lparr>sched_t := 18000, sched_t2 := 18001, sched_now := at_0900\<rparr>"

definition aug30_0800 :: DateTime where
  "aug30_0800 =
    \<lparr>dt_year = 2025, dt_month = 8, dt_day = 30, dt_hour = 8, dt_minute = 0, dt_second = 0\<rparr>"

text \<open>The table after the check at 08:00 and after the acknowledgment.\<close>

definition dueState :: "16 cint state" where
  "dueState = projr (loop duePass init_state)"

definition ackState :: "16 cint state" where
  "ackState = projr (loop ackPass dueState)"


section \<open>Properties\<close>

subsection \<open>The loops of the medicine functions\<close>

lemma dueLoop_frame: "dueLoop now ymd i s = s\<lparr>meds := meds (dueLoop now ymd i s)\<rparr>"
proof (induction now ymd i s rule: dueLoop.induct)
  case (1 now ymd i s)
  show ?case
    apply (subst (1 2) dueLoop.simps)
    using 1 apply (auto simp: startMedPending_def MED_COUNT_def)
    done
qed

lemma dueLoop_length: "length (meds (dueLoop now ymd i s)) = length (meds s)"
proof (induction now ymd i s rule: dueLoop.induct)
  case (1 now ymd i s)
  show ?case
    apply (subst dueLoop.simps)
    using 1 apply (auto simp: startMedPending_def MED_COUNT_def)
    done
qed

lemma dueLoop_nth_gen:
  "j < length (meds s) \<Longrightarrow>
   meds (dueLoop now ymd i s) ! j =
     (if i \<le> j \<and> dueAt now ymd (meds s ! j) then (meds s ! j)\<lparr>pending := True\<rparr> else meds s ! j)"
proof (induction now ymd i s arbitrary: j rule: dueLoop.induct)
  case (1 now ymd i s)
  let ?s' = "if \<not> pending (meds s ! i) then
            if dt_hour now = hour (meds s ! i) \<and> dt_minute now = minute (meds s ! i) then
              if lastAckYMD (meds s ! i) \<noteq> ymd then startMedPending i s else s
            else s
          else s"
  show ?case
  proof (cases "i < MED_COUNT s")
    case False
    then have "dueLoop now ymd i s = s"
      by (subst dueLoop.simps) simp
    with False "1.prems" show ?thesis
      by (simp add: MED_COUNT_def)
  next
    case True
    have step: "dueLoop now ymd i s = dueLoop now ymd (i + 1) ?s'"
      using True by (subst dueLoop.simps) simp
    have s': "?s' = (if dueAt now ymd (meds s ! i) then startMedPending i s else s)"
      by (simp add: dueAt_def)
    have len: "length (meds ?s') = length (meds s)"
      by (simp add: startMedPending_def)
    have nth: "meds ?s' ! j =
        (if j = i \<and> dueAt now ymd (meds s ! i) then (meds s ! i)\<lparr>pending := True\<rparr> else meds s ! j)"
      using "1.prems" unfolding s' by (simp add: startMedPending_def nth_list_update)
    have keep: "dueAt now ymd (meds ?s' ! j) \<longleftrightarrow> j \<noteq> i \<and> dueAt now ymd (meds s ! j)" if "i < j"
      using that unfolding nth by (simp add: dueAt_def)
    have ih: "meds (dueLoop now ymd (i + 1) ?s') ! j =
        (if i + 1 \<le> j \<and> dueAt now ymd (meds ?s' ! j) then (meds ?s' ! j)\<lparr>pending := True\<rparr>
         else meds ?s' ! j)"
      using "1.IH" [OF True, of j] "1.prems" len by simp
    show ?thesis
    proof (cases "j = i")
      case True
      then show ?thesis
        unfolding step ih nth by (simp add: dueAt_def)
    next
      case False
      show ?thesis
      proof (cases "i < j")
        case True
        with False show ?thesis
          unfolding step ih using keep [OF True] nth by simp
      next
        case False
        with \<open>j \<noteq> i\<close> have "j < i" by simp
        then show ?thesis
          unfolding step ih nth by simp
      qed
    qed
  qed
qed

lemma dueLoop_nth:
  "j < length (meds s) \<Longrightarrow>
   meds (dueLoop now (ymdNow now) i s) ! j =
     (if i \<le> j \<and> due now (meds s ! j) then (meds s ! j)\<lparr>pending := True\<rparr> else meds s ! j)"
  by (simp add: dueLoop_nth_gen due_def dueAt_def)

lemma promptLoop_frame: "\<exists>es. promptLoop i s = emit es s"
proof (induction i s rule: promptLoop.induct)
  case (1 i s)
  show ?case
    apply (subst promptLoop.simps)
    using 1 apply (auto simp: emit_def intro: exI[of _ "[]"])
    done
qed

lemma promptLoop_meds [simp]: "meds (promptLoop i s) = meds s"
  using promptLoop_frame [of i s] by (auto simp: emit_def)

lemma hydrationCheck_meds [simp]: "meds (hydrationCheck now s) = meds s"
  by (simp add: hydrationCheck_def emit_def)

lemma checkMedicinesAuto_nth:
  "i < length (meds s) \<Longrightarrow>
   meds (checkMedicinesAuto now s) ! i =
     (if due now (meds s ! i) then (meds s ! i)\<lparr>pending := True\<rparr> else meds s ! i)"
  by (simp add: checkMedicinesAuto_def dueLoop_nth)

lemma checkMedicinesAuto_length [simp]:
  "length (meds (checkMedicinesAuto now s)) = length (meds s)"
  by (simp add: checkMedicinesAuto_def dueLoop_length)

lemma sameDay_ymdNow: "sameDay t u \<Longrightarrow> (ymdNow t :: 'w::len cint) = ymdNow u"
  by (simp add: sameDay_def ymdNow_def)

lemma confirmLoop_Some:
  "i \<le> k \<Longrightarrow> k < length (meds s) \<Longrightarrow> pending (meds s ! k) \<Longrightarrow>
   (\<forall>j. i \<le> j \<and> j < k \<longrightarrow> \<not> pending (meds s ! j)) \<Longrightarrow>
   confirmLoop now a i s =
     Some (emit (taken (meds s ! k) a) (s\<lparr>meds := acknowledge now k (meds s)\<rparr>))"
proof (induction now a i s rule: confirmLoop.induct)
  case (1 now a i s)
  show ?case
  proof (cases "i = k")
    case True
    with 1 show ?thesis
      by (subst confirmLoop.simps) (simp add: MED_COUNT_def acknowledge_def)
  next
    case False
    with 1 have "i < k" "\<not> pending (meds s ! i)" by auto
    with 1 show ?thesis
      by (subst confirmLoop.simps) (simp add: MED_COUNT_def)
  qed
qed

lemma confirmLoop_None:
  "(\<forall>j. i \<le> j \<and> j < length (meds s) \<longrightarrow> \<not> pending (meds s ! j)) \<Longrightarrow>
   confirmLoop now a i s = None"
proof (induction now a i s rule: confirmLoop.induct)
  case (1 now a i s)
  then show ?case
    by (subst confirmLoop.simps) (simp add: MED_COUNT_def)
qed

lemma nextLoop_found:
  "i \<le> k \<Longrightarrow> k < length (meds s) \<Longrightarrow> later now (meds s ! k) \<Longrightarrow>
   (\<forall>j. i \<le> j \<and> j < k \<longrightarrow> \<not> later now (meds s ! j)) \<Longrightarrow>
   nextLoop now i s = int k"
proof (induction now i s rule: nextLoop.induct)
  case (1 now i s)
  show ?case
  proof (cases "i = k")
    case True
    with 1 show ?thesis
      by (subst nextLoop.simps) (simp add: MED_COUNT_def later_def)
  next
    case False
    with 1 have "i < k" "\<not> later now (meds s ! i)" by auto
    with 1 show ?thesis
      by (subst nextLoop.simps) (simp add: MED_COUNT_def later_def)
  qed
qed

lemma nextLoop_none:
  "(\<forall>j. i \<le> j \<and> j < length (meds s) \<longrightarrow> \<not> later now (meds s ! j)) \<Longrightarrow>
   nextLoop now i s = - 1"
proof (induction now i s rule: nextLoop.induct)
  case (1 now i s)
  then show ?case
    by (subst nextLoop.simps) (auto simp add: MED_COUNT_def later_def)
qed

lemma confirm_pending:
  "firstPendingAt (meds s) k \<Longrightarrow>
   confirmFirstPendingMed now a s =
     emit (taken (meds s ! k) a) (s\<lparr>meds := acknowledge now k (meds s)\<rparr>)"
  using confirmLoop_Some [of 0 k s now a]
  by (simp add: confirmFirstPendingMed_def firstPendingAt_def)

subsection \<open>The due-check\<close>

text \<open>
  What the check does to entry \<open>i\<close>, with the dates compared as \<open>ymdNow\<close> encodes them in
  the \<open>int\<close> of the board: the entry goes from not pending to pending exactly when it is not
  pending, the hour and the minute of the clock equal the scheduled ones, and \<open>lastAckYMD\<close>
  differs from the encoding of today's date. After an acknowledgment, a later check on the
  same day leaves the entry not pending.
\<close>

lemma due_check_by_encoding:
  fixes s :: "'w::len cint state"
  assumes "i < length (meds s)"
  shows "(pending (meds (checkMedicinesAuto now s) ! i) \<and> \<not> pending (meds s ! i) \<longleftrightarrow>
            \<not> pending (meds s ! i) \<and> dt_hour now = hour (meds s ! i) \<and>
            dt_minute now = minute (meds s ! i) \<and> lastAckYMD (meds s ! i) \<noteq> ymdNow now) \<and>
         meds (checkMedicinesAuto now s) ! i =
           (if due now (meds s ! i) then (meds s ! i)\<lparr>pending := True\<rparr> else meds s ! i) \<and>
         (firstPendingAt (meds s) i \<and> sameDay now later_now \<longrightarrow>
            lastAckYMD (meds (confirmFirstPendingMed now a s) ! i) = ymdNow now \<and>
            \<not> pending (meds (confirmFirstPendingMed now a s) ! i) \<and>
            \<not> pending (meds (checkMedicinesAuto later_now (confirmFirstPendingMed now a s)) ! i))"
proof (intro conjI impI)
  show "meds (checkMedicinesAuto now s) ! i =
           (if due now (meds s ! i) then (meds s ! i)\<lparr>pending := True\<rparr> else meds s ! i)"
    using assms by (rule checkMedicinesAuto_nth)
  then show "(pending (meds (checkMedicinesAuto now s) ! i) \<and> \<not> pending (meds s ! i) \<longleftrightarrow>
            \<not> pending (meds s ! i) \<and> dt_hour now = hour (meds s ! i) \<and>
            dt_minute now = minute (meds s ! i) \<and> lastAckYMD (meds s ! i) \<noteq> ymdNow now)"
    by (auto simp: due_def)
next
  assume h: "firstPendingAt (meds s) i \<and> sameDay now later_now"
  let ?s1 = "confirmFirstPendingMed now a s"
  from h have s1: "?s1 = emit (taken (meds s ! i) a) (s\<lparr>meds := acknowledge now i (meds s)\<rparr>)"
    by (simp add: confirm_pending)
  from s1 assms show ack: "lastAckYMD (meds ?s1 ! i) = ymdNow now"
    by (simp add: emit_def acknowledge_def)
  from s1 assms show np: "\<not> pending (meds ?s1 ! i)"
    by (simp add: emit_def acknowledge_def)
  from s1 assms have len: "i < length (meds ?s1)"
    by (simp add: emit_def acknowledge_def)
  from h have "sameDay now later_now" by simp
  then have "(ymdNow later_now :: 'w cint) = ymdNow now"
    by (rule sameDay_ymdNow [symmetric])
  with ack have "\<not> due later_now (meds ?s1 ! i)"
    by (simp add: due_def)
  with np show "\<not> pending (meds (checkMedicinesAuto later_now ?s1) ! i)"
    by (simp add: checkMedicinesAuto_nth [OF len])
qed


text \<open>
  C1. The due check is meant to compare dates: an entry whose last acknowledged date is not
  today's date is marked at its scheduled hour and minute. On the 16-bit \<open>int\<close> of the Arduino Nano
  the sketch does not do so. \<open>lastAckYMD\<close> is declared \<open>int\<close> with the comment
  \<open>YYYYMMDD\<close>, but \<open>ymdNow\<close> wraps: 2025-06-24 is encoded as 0, the value \<open>lastAckYMD\<close> has
  when the entry was never acknowledged. So on that day the check at 08:00 leaves the
  08:00 entry, not pending and never acknowledged, unmarked; with a 32-bit \<open>int\<close> the same
  check marks it. Two different days can also share an encoding: 2025-01-29 and
  2038-12-01 do, and an entry acknowledged on the first is not marked on the second.
\<close>

theorem due_check_misses_wrapped_date:
  "(ymdNow jun24_0800 :: 16 cint) = 0 \<and>
   (ymdNow jun24_0800 :: 32 cint) = 20250624 \<and>
   \<not> pending (meds (init_state :: 16 cint state) ! 0) \<and>
   hour (meds (init_state :: 16 cint state) ! 0) = dt_hour jun24_0800 \<and>
   minute (meds (init_state :: 16 cint state) ! 0) = dt_minute jun24_0800 \<and>
   lastAckYMD (meds (init_state :: 16 cint state) ! 0) = 0 \<and>
   \<not> pending (meds (checkMedicinesAuto jun24_0800 (init_state :: 16 cint state)) ! 0) \<and>
   pending (meds (checkMedicinesAuto jun24_0800 (init_state :: 32 cint state)) ! 0) \<and>
   pending (meds (checkMedicinesAuto at_0800 (init_state :: 16 cint state)) ! 0) \<and>
   \<not> sameDay jan29_0800 dec01_2038_0800 \<and>
   (ymdNow jan29_0800 :: 16 cint) = ymdNow dec01_2038_0800 \<and>
   pending (meds (checkMedicinesAuto jan29_0800 (init_state :: 16 cint state)) ! 0) \<and>
   \<not> pending (meds (checkMedicinesAuto dec01_2038_0800
       (confirmFirstPendingMed jan29_0800 2
         (checkMedicinesAuto jan29_0800 (init_state :: 16 cint state)))) ! 0) \<and>
   pending (meds (checkMedicinesAuto dec01_2038_0800
       (confirmFirstPendingMed jan29_0800 2
         (checkMedicinesAuto jan29_0800 (init_state :: 32 cint state)))) ! 0)"
proof (intro conjI)
  show "(ymdNow jun24_0800 :: 16 cint) = 0"
    by (simp add: ymdNow_def jun24_0800_def)
  show "(ymdNow jun24_0800 :: 32 cint) = 20250624"
    by (simp add: ymdNow_def jun24_0800_def)
  show "\<not> pending (meds (init_state :: 16 cint state) ! 0)"
    by (simp add: init_state_def meds_init_def)
  show "hour (meds (init_state :: 16 cint state) ! 0) = dt_hour jun24_0800"
    by (simp add: init_state_def meds_init_def jun24_0800_def)
  show "minute (meds (init_state :: 16 cint state) ! 0) = dt_minute jun24_0800"
    by (simp add: init_state_def meds_init_def jun24_0800_def)
  show "lastAckYMD (meds (init_state :: 16 cint state) ! 0) = 0"
    by (simp add: init_state_def meds_init_def)
  show "\<not> pending (meds (checkMedicinesAuto jun24_0800 (init_state :: 16 cint state)) ! 0)"
    by code_simp
  show "pending (meds (checkMedicinesAuto jun24_0800 (init_state :: 32 cint state)) ! 0)"
    by code_simp
  show "pending (meds (checkMedicinesAuto at_0800 (init_state :: 16 cint state)) ! 0)"
    by code_simp
  show "\<not> sameDay jan29_0800 dec01_2038_0800"
    by (simp add: sameDay_def jan29_0800_def dec01_2038_0800_def)
  show "(ymdNow jan29_0800 :: 16 cint) = ymdNow dec01_2038_0800"
    by (simp add: ymdNow_def jan29_0800_def dec01_2038_0800_def)
  show "pending (meds (checkMedicinesAuto jan29_0800 (init_state :: 16 cint state)) ! 0)"
    by code_simp
  show "\<not> pending (meds (checkMedicinesAuto dec01_2038_0800
       (confirmFirstPendingMed jan29_0800 2
         (checkMedicinesAuto jan29_0800 (init_state :: 16 cint state)))) ! 0)"
    by code_simp
  show "pending (meds (checkMedicinesAuto dec01_2038_0800
       (confirmFirstPendingMed jan29_0800 2
         (checkMedicinesAuto jan29_0800 (init_state :: 32 cint state)))) ! 0)"
    by code_simp
qed

subsection \<open>What \<open>emit\<close> leaves alone\<close>

lemma emit_simps [simp]:
  "trace (emit es s) = trace s @ es"
  "meds (emit es s) = meds s"
  "knownItems (emit es s) = knownItems s"
  "lastDebounceTime (emit es s) = lastDebounceTime s"
  "lastActivity (emit es s) = lastActivity s"
  "lastScheduleCheck (emit es s) = lastScheduleCheck s"
  "lastHydrationHour (emit es s) = lastHydrationHour s"
  by (simp_all add: emit_def)

lemma emit_emit: "emit es (emit ds s) = emit (ds @ es) s"
  by (simp add: emit_def)

lemma emit_Nil [simp]: "emit [] s = s"
  by (simp add: emit_def)

subsection \<open>The hydration nudge\<close>

lemma dueLoop_trace [simp]: "trace (dueLoop now ymd i s) = trace s"
  by (subst dueLoop_frame) simp

lemma dueLoop_lastHydrationHour [simp]:
  "lastHydrationHour (dueLoop now ymd i s) = lastHydrationHour s"
  by (subst dueLoop_frame) simp


lemma promptLoop_lastHydrationHour [simp]:
  "lastHydrationHour (promptLoop i s) = lastHydrationHour s"
  using promptLoop_frame [of i s] by auto





subsection \<open>The debounced buttons\<close>

lemma readBtnOnce_other_cell:
  "idx' \<noteq> idx \<Longrightarrow>
   lastDebounceTime (snd (readBtnOnce pins now pin idx' s)) ! idx = lastDebounceTime s ! idx"
  by (simp add: readBtnOnce_def)

lemma elapsed_real_time:
  fixes T T' :: nat
  assumes "T \<le> T'" and "(of_nat T' :: ulong) - of_nat T > DEBOUNCE_MS"
  shows "T' - T > 200"
proof -
  have "(of_nat T' :: ulong) - of_nat T = of_nat (T' - T)"
    using assms(1) by simp
  with assms(2) have "unat (200 :: ulong) < unat (of_nat (T' - T) :: ulong)"
    by (simp add: DEBOUNCE_MS_def word_less_nat_alt)
  moreover have "unat (of_nat (T' - T) :: ulong) \<le> T' - T"
    by (simp add: unat_of_nat)
  ultimately show ?thesis by simp
qed

text \<open>
  C4. \<open>readBtnOnce\<close> returns true only when the line reads \<open>LOW\<close> and more than
  \<open>DEBOUNCE_MS\<close> (200 ms) have passed, in the arithmetic of \<open>millis()\<close>, since the time in
  the cell of the button. When it returns true, the cell and \<open>lastActivity\<close> hold the current
  time, the short beep is written (buzzer pin 8 \<open>HIGH\<close>, 100 ms, pin 8 \<open>LOW\<close>), and nothing
  else changes. When it returns false, a press
  inside the window included, the state is unchanged and nothing is written. So a press
  accepted while the cell still holds the time of the previous accepted press comes more
  than 200 ms after it, also in real time when \<open>millis()\<close> has wrapped around.
\<close>

theorem readBtnOnce_debounce:
  assumes "idx < length (lastDebounceTime s)"
  shows
    "(fst (readBtnOnce pins now pin idx s) \<longleftrightarrow>
        pins pin = LOW \<and> now - lastDebounceTime s ! idx > DEBOUNCE_MS) \<and>
     DEBOUNCE_MS = 200 \<and>
     (fst (readBtnOnce pins now pin idx s) \<longrightarrow>
        snd (readBtnOnce pins now pin idx s) =
          s\<lparr>lastDebounceTime := (lastDebounceTime s)[idx := now], lastActivity := now,
            trace := trace s @ shortBeep\<rparr> \<and>
        lastDebounceTime (snd (readBtnOnce pins now pin idx s)) ! idx = now \<and>
        lastActivity (snd (readBtnOnce pins now pin idx s)) = now \<and>
        trace (snd (readBtnOnce pins now pin idx s)) =
          trace s @ [DigitalWrite 8 HIGH, Delay 100, DigitalWrite 8 LOW]) \<and>
     (\<not> fst (readBtnOnce pins now pin idx s) \<longrightarrow> snd (readBtnOnce pins now pin idx s) = s) \<and>
     (fst (readBtnOnce pins now pin idx s) \<and>
      lastDebounceTime s' ! idx = lastDebounceTime (snd (readBtnOnce pins now pin idx s)) ! idx \<and>
      fst (readBtnOnce pins' now' pin idx s') \<longrightarrow>
        now' - now > DEBOUNCE_MS \<and>
        (\<forall>T T'. now = of_nat T \<and> now' = of_nat T' \<and> T \<le> T' \<longrightarrow> T' - T > 200))"
proof (intro conjI impI allI)
  show "fst (readBtnOnce pins now pin idx s) \<longleftrightarrow>
        pins pin = LOW \<and> now - lastDebounceTime s ! idx > DEBOUNCE_MS"
    by (simp add: readBtnOnce_def)
  show "DEBOUNCE_MS = 200"
    by (simp add: DEBOUNCE_MS_def)
next
  assume a: "fst (readBtnOnce pins now pin idx s)"
  then show "snd (readBtnOnce pins now pin idx s) =
          s\<lparr>lastDebounceTime := (lastDebounceTime s)[idx := now], lastActivity := now,
            trace := trace s @ shortBeep\<rparr>"
    by (simp add: readBtnOnce_def emit_def split: if_splits)
  from a assms show "lastDebounceTime (snd (readBtnOnce pins now pin idx s)) ! idx = now"
    by (simp add: readBtnOnce_def split: if_splits)
  from a show "lastActivity (snd (readBtnOnce pins now pin idx s)) = now"
    by (simp add: readBtnOnce_def split: if_splits)
  from a show "trace (snd (readBtnOnce pins now pin idx s)) =
          trace s @ [DigitalWrite 8 HIGH, Delay 100, DigitalWrite 8 LOW]"
    by (simp add: readBtnOnce_def shortBeep_def beepMs_def BUZZER_PIN_def split: if_splits)
next
  assume "\<not> fst (readBtnOnce pins now pin idx s)"
  then show "snd (readBtnOnce pins now pin idx s) = s"
    by (simp add: readBtnOnce_def split: if_splits)
next
  assume h: "fst (readBtnOnce pins now pin idx s) \<and>
      lastDebounceTime s' ! idx = lastDebounceTime (snd (readBtnOnce pins now pin idx s)) ! idx \<and>
      fst (readBtnOnce pins' now' pin idx s')"
  with assms have cell: "lastDebounceTime s' ! idx = now"
    by (simp add: readBtnOnce_def split: if_splits)
  from h have "now' - lastDebounceTime s' ! idx > DEBOUNCE_MS"
    by (simp add: readBtnOnce_def split: if_splits)
  with cell show gt: "now' - now > DEBOUNCE_MS" by simp
  fix T T' :: nat
  assume "now = of_nat T \<and> now' = of_nat T' \<and> T \<le> T'"
  with gt show "T' - T > 200"
    using elapsed_real_time [of T T'] by simp
qed

theorem readBtnOnce_debounce_witness:
  "(1 :: nat) < length (lastDebounceTime (init_state :: 16 cint state)) \<and>
   fst (readBtnOnce allLow 1000 BTN_MED_PIN 1 (init_state :: 16 cint state)) \<and>
   trace (snd (readBtnOnce allLow 1000 BTN_MED_PIN 1 (init_state :: 16 cint state))) =
     [DigitalWrite 8 HIGH, Delay 100, DigitalWrite 8 LOW] \<and>
   lastDebounceTime (snd (readBtnOnce allLow 1000 BTN_MED_PIN 1 (init_state :: 16 cint state))) =
     [0, 1000, 0, 0] \<and>
   lastActivity (snd (readBtnOnce allLow 1000 BTN_MED_PIN 1 (init_state :: 16 cint state))) =
     1000 \<and>
   \<not> fst (readBtnOnce allLow 1100 BTN_MED_PIN 1
       (snd (readBtnOnce allLow 1000 BTN_MED_PIN 1 (init_state :: 16 cint state)))) \<and>
   snd (readBtnOnce allLow 1100 BTN_MED_PIN 1
       (snd (readBtnOnce allLow 1000 BTN_MED_PIN 1 (init_state :: 16 cint state)))) =
     snd (readBtnOnce allLow 1000 BTN_MED_PIN 1 (init_state :: 16 cint state)) \<and>
   \<not> fst (readBtnOnce allHigh 5000 BTN_MED_PIN 1 (init_state :: 16 cint state)) \<and>
   fst (readBtnOnce allLow 1201 BTN_MED_PIN 1
       (snd (readBtnOnce allLow 1000 BTN_MED_PIN 1 (init_state :: 16 cint state)))) \<and>
   (1201 :: ulong) - 1000 > DEBOUNCE_MS"
proof -
  let ?s = "init_state :: 16 cint state"
  let ?s1 = "snd (readBtnOnce allLow 1000 BTN_MED_PIN 1 ?s)"
  have l: "(1 :: nat) < length (lastDebounceTime ?s)"
    by (simp add: init_state_def)
  have a1: "fst (readBtnOnce allLow 1000 BTN_MED_PIN 1 ?s)"
    by (simp add: readBtnOnce_def allLow_def init_state_def DEBOUNCE_MS_def)
  have c: "lastDebounceTime ?s1 ! 1 = 1000"
    by (simp add: readBtnOnce_def allLow_def init_state_def DEBOUNCE_MS_def)
  have a2: "\<not> fst (readBtnOnce allLow 1100 BTN_MED_PIN 1 ?s1)"
    using c by (simp add: readBtnOnce_def [of allLow 1100] allLow_def DEBOUNCE_MS_def)
  have a3: "fst (readBtnOnce allLow 1201 BTN_MED_PIN 1 ?s1)"
    using c by (simp add: readBtnOnce_def [of allLow 1201] allLow_def DEBOUNCE_MS_def)
  have a4: "\<not> fst (readBtnOnce allHigh 5000 BTN_MED_PIN 1 ?s)"
    by (simp add: readBtnOnce_def allHigh_def)
  have t0: "trace ?s = []" "lastDebounceTime ?s = [0, 0, 0, 0]"
    by (simp_all add: init_state_def)
  note A = readBtnOnce_debounce [OF l, of allLow 1000 BTN_MED_PIN ?s1 allLow 1201]
  from A a1 have s1: "?s1 = ?s\<lparr>lastDebounceTime := (lastDebounceTime ?s)[1 := 1000],
      lastActivity := 1000, trace := trace ?s @ shortBeep\<rparr>"
    by blast
  from A a1 have tr: "trace ?s1 = trace ?s @ [DigitalWrite 8 HIGH, Delay 100, DigitalWrite 8 LOW]"
    by blast
  from A a1 have la: "lastActivity ?s1 = 1000"
    by blast
  have cells: "lastDebounceTime ?s1 = [0, 1000, 0, 0]"
    by (subst s1) (simp add: t0)
  have l1: "(1 :: nat) < length (lastDebounceTime ?s1)"
    unfolding cells by simp
  from readBtnOnce_debounce [OF l1, of allLow 1100 BTN_MED_PIN] a2
  have dropped: "snd (readBtnOnce allLow 1100 BTN_MED_PIN 1 ?s1) = ?s1"
    by blast
  from A a1 c a3 have gt: "(1201 :: ulong) - 1000 > DEBOUNCE_MS"
    by blast
  from l a1 tr [unfolded t0] cells la a2 dropped a4 a3 gt show ?thesis
    by simp
qed

subsection \<open>Startup\<close>

text \<open>
  C8. \<open>setup\<close> is straight-line code: it tests the clock in one \<open>if\<close> - \<open>else if\<close>, has no
  loop, no second attempt and no statement that stops, so the model is a function that
  returns a state for every answer of the peripherals (the library calls themselves are
  taken to return). That the statements after the test are reached shows in what is written:
  in every case the pin set-up is followed by \<open>RTC not found\<close> (when \<open>rtc.begin()\<close> failed),
  by \<open>RTC lost power\<close> (when it succeeded and the clock reports a power loss) or by nothing,
  and then by the start-up screen and the menu, and \<open>lastActivity\<close> holds the final
  \<open>millis()\<close>. Nothing is written to the clock (no event of the sketch does), and the
  globals that \<open>loop\<close> starts from are those of a clean start: a failure changes the trace
  and nothing else.
\<close>

theorem setup_continues:
  "trace (setup_sketch a0 rtcBegin lostPower now w t s) =
     trace s @
     [PinMode 8 OUTPUT, DigitalWrite 8 LOW, PinMode 2 INPUT_PULLUP, PinMode 3 INPUT_PULLUP,
      PinMode 4 INPUT_PULLUP, PinMode 5 INPUT_PULLUP, LcdInit, LcdBacklight, SpiBegin,
      PcdInit, SerialBegin 9600, Delay 50, RandomSeed a0] @
     (if \<not> rtcBegin then
        [LcdClear, LcdSetCursor 0 0, LcdPrint ''RTC not found'',
         LcdSetCursor 0 1, LcdPrint ''Check wiring'', Delay 2500]
      else if lostPower then
        [LcdClear, LcdSetCursor 0 0, LcdPrint ''RTC lost power'',
         LcdSetCursor 0 1, LcdPrint ''Set time'', Delay 1800]
      else []) @
     [LcdClear, LcdSetCursor 0 0,
      LcdPrint (take 16 (days ! w @ '' '' @ padded 4 (unat (dt_year now)) @ ''-'' @
        padded 2 (unat (dt_month now)) @ ''-'' @ padded 2 (unat (dt_day now)))),
      LcdSetCursor 0 1, LcdPrint (take 16 (hms now)), Delay 1800,
      LcdClear, LcdSetCursor 0 0, LcdPrint ''1:Memory 2:Meds'',
      LcdSetCursor 0 1, LcdPrint ''3:Exerc  4:SOS ''] \<and>
   lastActivity (setup_sketch a0 rtcBegin lostPower now w t s) = t \<and>
   setup_sketch a0 rtcBegin lostPower now w t s =
     s\<lparr>lastActivity := t, trace := trace (setup_sketch a0 rtcBegin lostPower now w t s)\<rparr> \<and>
   setup_sketch a0 rtcBegin lostPower now w t s =
     (setup_sketch a0 True False now w t s)
       \<lparr>trace := trace (setup_sketch a0 rtcBegin lostPower now w t s)\<rparr>"
proof (intro conjI)
  show "trace (setup_sketch a0 rtcBegin lostPower now w t s) =
     trace s @
     [PinMode 8 OUTPUT, DigitalWrite 8 LOW, PinMode 2 INPUT_PULLUP, PinMode 3 INPUT_PULLUP,
      PinMode 4 INPUT_PULLUP, PinMode 5 INPUT_PULLUP, LcdInit, LcdBacklight, SpiBegin,
      PcdInit, SerialBegin 9600, Delay 50, RandomSeed a0] @
     (if \<not> rtcBegin then
        [LcdClear, LcdSetCursor 0 0, LcdPrint ''RTC not found'',
         LcdSetCursor 0 1, LcdPrint ''Check wiring'', Delay 2500]
      else if lostPower then
        [LcdClear, LcdSetCursor 0 0, LcdPrint ''RTC lost power'',
         LcdSetCursor 0 1, LcdPrint ''Set time'', Delay 1800]
      else []) @
     [LcdClear, LcdSetCursor 0 0,
      LcdPrint (take 16 (days ! w @ '' '' @ padded 4 (unat (dt_year now)) @ ''-'' @
        padded 2 (unat (dt_month now)) @ ''-'' @ padded 2 (unat (dt_day now)))),
      LcdSetCursor 0 1, LcdPrint (take 16 (hms now)), Delay 1800,
      LcdClear, LcdSetCursor 0 0, LcdPrint ''1:Memory 2:Meds'',
      LcdSetCursor 0 1, LcdPrint ''3:Exerc  4:SOS '']"
    by (simp add: setup_sketch_def Let_def setupPins_def showTwo_def lcdStartup_def lcdMenu_def
        BUZZER_PIN_def BTN_MEMORY_PIN_def BTN_MED_PIN_def BTN_EX_PIN_def BTN_SOS_PIN_def)
  show "lastActivity (setup_sketch a0 rtcBegin lostPower now w t s) = t"
    by (simp add: setup_sketch_def Let_def)
  show "setup_sketch a0 rtcBegin lostPower now w t s =
     s\<lparr>lastActivity := t, trace := trace (setup_sketch a0 rtcBegin lostPower now w t s)\<rparr>"
    by (simp add: setup_sketch_def Let_def emit_def)
  show "setup_sketch a0 rtcBegin lostPower now w t s =
     (setup_sketch a0 True False now w t s)
       \<lparr>trace := trace (setup_sketch a0 rtcBegin lostPower now w t s)\<rparr>"
    by (simp add: setup_sketch_def Let_def emit_def)
qed

theorem setup_continues_witness:
  "trace (setup_sketch 0 False True at_0800 5 1900 (init_state :: 16 cint state)) =
     [PinMode 8 OUTPUT, DigitalWrite 8 LOW, PinMode 2 INPUT_PULLUP, PinMode 3 INPUT_PULLUP,
      PinMode 4 INPUT_PULLUP, PinMode 5 INPUT_PULLUP, LcdInit, LcdBacklight, SpiBegin,
      PcdInit, SerialBegin 9600, Delay 50, RandomSeed 0,
      LcdClear, LcdSetCursor 0 0, LcdPrint ''RTC not found'',
      LcdSetCursor 0 1, LcdPrint ''Check wiring'', Delay 2500,
      LcdClear, LcdSetCursor 0 0, LcdPrint ''Fri 2025-08-29'',
      LcdSetCursor 0 1, LcdPrint ''08:00:00'', Delay 1800,
      LcdClear, LcdSetCursor 0 0, LcdPrint ''1:Memory 2:Meds'',
      LcdSetCursor 0 1, LcdPrint ''3:Exerc  4:SOS ''] \<and>
   trace (setup_sketch 0 True True at_0800 5 1900 (init_state :: 16 cint state)) =
     [PinMode 8 OUTPUT, DigitalWrite 8 LOW, PinMode 2 INPUT_PULLUP, PinMode 3 INPUT_PULLUP,
      PinMode 4 INPUT_PULLUP, PinMode 5 INPUT_PULLUP, LcdInit, LcdBacklight, SpiBegin,
      PcdInit, SerialBegin 9600, Delay 50, RandomSeed 0,
      LcdClear, LcdSetCursor 0 0, LcdPrint ''RTC lost power'',
      LcdSetCursor 0 1, LcdPrint ''Set time'', Delay 1800,
      LcdClear, LcdSetCursor 0 0, LcdPrint ''Fri 2025-08-29'',
      LcdSetCursor 0 1, LcdPrint ''08:00:00'', Delay 1800,
      LcdClear, LcdSetCursor 0 0, LcdPrint ''1:Memory 2:Meds'',
      LcdSetCursor 0 1, LcdPrint ''3:Exerc  4:SOS ''] \<and>
   lastActivity (setup_sketch 0 False True at_0800 5 1900 (init_state :: 16 cint state)) = 1900 \<and>
   meds (setup_sketch 0 False True at_0800 5 1900 (init_state :: 16 cint state)) = meds_init"
proof -
  note A = setup_continues [of 0 False True at_0800 5 1900 "init_state :: 16 cint state"]
  note B = setup_continues [of 0 True True at_0800 5 1900 "init_state :: 16 cint state"]
  have t: "trace (init_state :: 16 cint state) = []"
    by (simp add: init_state_def)
  have l1: "take 16 (days ! 5 @ '' '' @ padded 4 (unat (dt_year at_0800)) @ ''-'' @
        padded 2 (unat (dt_month at_0800)) @ ''-'' @ padded 2 (unat (dt_day at_0800))) =
      ''Fri 2025-08-29''"
    by code_simp
  have l2: "take 16 (hms at_0800) = ''08:00:00''"
    by code_simp
  have 1: "trace (setup_sketch 0 False True at_0800 5 1900 (init_state :: 16 cint state)) =
     [PinMode 8 OUTPUT, DigitalWrite 8 LOW, PinMode 2 INPUT_PULLUP, PinMode 3 INPUT_PULLUP,
      PinMode 4 INPUT_PULLUP, PinMode 5 INPUT_PULLUP, LcdInit, LcdBacklight, SpiBegin,
      PcdInit, SerialBegin 9600, Delay 50, RandomSeed 0,
      LcdClear, LcdSetCursor 0 0, LcdPrint ''RTC not found'',
      LcdSetCursor 0 1, LcdPrint ''Check wiring'', Delay 2500,
      LcdClear, LcdSetCursor 0 0, LcdPrint ''Fri 2025-08-29'',
      LcdSetCursor 0 1, LcdPrint ''08:00:00'', Delay 1800,
      LcdClear, LcdSetCursor 0 0, LcdPrint ''1:Memory 2:Meds'',
      LcdSetCursor 0 1, LcdPrint ''3:Exerc  4:SOS '']"
    unfolding A [THEN conjunct1] l1 l2 t by simp
  have 2: "trace (setup_sketch 0 True True at_0800 5 1900 (init_state :: 16 cint state)) =
     [PinMode 8 OUTPUT, DigitalWrite 8 LOW, PinMode 2 INPUT_PULLUP, PinMode 3 INPUT_PULLUP,
      PinMode 4 INPUT_PULLUP, PinMode 5 INPUT_PULLUP, LcdInit, LcdBacklight, SpiBegin,
      PcdInit, SerialBegin 9600, Delay 50, RandomSeed 0,
      LcdClear, LcdSetCursor 0 0, LcdPrint ''RTC lost power'',
      LcdSetCursor 0 1, LcdPrint ''Set time'', Delay 1800,
      LcdClear, LcdSetCursor 0 0, LcdPrint ''Fri 2025-08-29'',
      LcdSetCursor 0 1, LcdPrint ''08:00:00'', Delay 1800,
      LcdClear, LcdSetCursor 0 0, LcdPrint ''1:Memory 2:Meds'',
      LcdSetCursor 0 1, LcdPrint ''3:Exerc  4:SOS '']"
    unfolding B [THEN conjunct1] l1 l2 t by simp
  have 3: "lastActivity (setup_sketch 0 False True at_0800 5 1900 (init_state :: 16 cint state)) =
      1900"
    using A by blast
  have 4: "meds (setup_sketch 0 False True at_0800 5 1900 (init_state :: 16 cint state)) =
      meds_init"
    using arg_cong [OF A [THEN conjunct2, THEN conjunct2, THEN conjunct1], of meds]
    by (simp add: init_state_def)
  from 1 2 3 4 show ?thesis by simp
qed

subsection \<open>The acknowledgment handler\<close>

lemma later_schedKey:
  "later now m \<longleftrightarrow> unat (dt_hour now) * 256 + unat (dt_minute now) < schedKey m"
proof -
  have m: "unat (dt_minute now) < 256" "unat (minute m) < 256"
    using unsigned_less [of "dt_minute now", where 'a = nat]
      unsigned_less [of "minute m", where 'a = nat] by simp_all
  show ?thesis
    unfolding later_def schedKey_def word_less_nat_alt
    using m by (auto simp: word_unat_eq_iff)
qed

lemma nonePending_nth: "nonePending ms \<longleftrightarrow> (\<forall>j<length ms. \<not> pending (ms ! j))"
  by (simp add: nonePending_def list_all_length)

lemma confirm_none_pending:
  "\<forall>j<length (meds s). \<not> pending (meds s ! j) \<Longrightarrow>
   confirmFirstPendingMed now a s =
     emit (nextMed (meds s ! nat (if nextLoop now 0 s = - 1 then 0 else nextLoop now 0 s))) s"
  using confirmLoop_None [of 0 s now a]
  by (simp add: confirmFirstPendingMed_def Let_def)

lemma acknowledge_nth:
  "k < length ms \<Longrightarrow>
   acknowledge now k ms ! j =
     (if j = k then (ms ! k)\<lparr>pending := False, lastAckYMD := ymdNow now\<rparr> else ms ! j)"
  by (simp add: acknowledge_def nth_list_update)

lemma sorted_first_later_soonest:
  assumes "sorted (map schedKey ms)" "k < length ms" "\<forall>j<k. \<not> later now (ms ! j)"
    "j < length ms" "later now (ms ! j)"
  shows "schedKey (ms ! k) \<le> schedKey (ms ! j)"
proof -
  from assms(3,5) have "k \<le> j"
    by (meson not_le_imp_less)
  with assms(1,4) have "map schedKey ms ! k \<le> map schedKey ms ! j"
    by (intro sorted_nth_mono) simp_all
  with assms(2,4) show ?thesis by simp
qed

text \<open>
  C3. \<open>a\<close> is what \<open>random(0, AFF_COUNT)\<close> returned, a value below \<open>AFF_COUNT\<close>. When entry
  \<open>k\<close> is the pending entry of lowest index, \<open>confirmFirstPendingMed\<close> clears its flag,
  stores today's date in it, leaves every other entry and every other global as it was,
  and writes the name of the entry and a phrase of \<open>AFFS\<close>. When no entry is pending and
  the table is not empty, it changes nothing and writes the first entry in table order
  scheduled later than the clock, or entry 0 when there is none; on a table in ascending
  time order that first entry is the soonest of the later ones.
\<close>

theorem confirm_first_pending:
  fixes s :: "'w::len cint state"
  assumes "a < AFF_COUNT"
  shows
    "(firstPendingAt (meds s) k \<longrightarrow>
        confirmFirstPendingMed now a s =
          s\<lparr>meds := acknowledge now k (meds s), trace := trace s @ taken (meds s ! k) a\<rparr> \<and>
        (\<forall>j<length (meds s).
           meds (confirmFirstPendingMed now a s) ! j =
             (if j = k then (meds s ! k)\<lparr>pending := False, lastAckYMD := ymdNow now\<rparr>
              else meds s ! j)) \<and>
        LcdPrint (name (meds s ! k)) \<in> set (taken (meds s ! k) a) \<and>
        LcdPrint (AFFS ! unat a) \<in> set (taken (meds s ! k) a) \<and>
        AFFS ! unat a \<in> set AFFS) \<and>
     (nonePending (meds s) \<and> meds s \<noteq> [] \<longrightarrow>
        (firstLaterAt now (meds s) k \<longrightarrow>
           confirmFirstPendingMed now a s = emit (nextMed (meds s ! k)) s \<and>
           (sorted (map schedKey (meds s)) \<longrightarrow>
              (\<forall>j<length (meds s). later now (meds s ! j) \<longrightarrow>
                 schedKey (meds s ! k) \<le> schedKey (meds s ! j)))) \<and>
        ((\<forall>j<length (meds s). \<not> later now (meds s ! j)) \<longrightarrow>
           confirmFirstPendingMed now a s = emit (nextMed (meds s ! 0)) s) \<and>
        LcdPrint (name m) \<in> set (nextMed m))"
proof (intro conjI impI allI)
  assume f: "firstPendingAt (meds s) k"
  then have k: "k < length (meds s)"
    by (simp add: firstPendingAt_def)
  from f show c: "confirmFirstPendingMed now a s =
          s\<lparr>meds := acknowledge now k (meds s), trace := trace s @ taken (meds s ! k) a\<rparr>"
    by (simp add: confirm_pending emit_def)
  show "LcdPrint (name (meds s ! k)) \<in> set (taken (meds s ! k) a)"
    by (simp add: taken_def)
  show "LcdPrint (AFFS ! unat a) \<in> set (taken (meds s ! k) a)"
    by (simp add: taken_def)
  from assms have "unat a < length AFFS"
    by (simp add: AFF_COUNT_def AFFS_def word_less_nat_alt)
  then show "AFFS ! unat a \<in> set AFFS"
    by (rule nth_mem)
  fix j
  assume "j < length (meds s)"
  with k show "meds (confirmFirstPendingMed now a s) ! j =
             (if j = k then (meds s ! k)\<lparr>pending := False, lastAckYMD := ymdNow now\<rparr>
              else meds s ! j)"
    unfolding c by (simp add: acknowledge_nth)
next
  assume "nonePending (meds s) \<and> meds s \<noteq> []"
  then have n: "(\<forall>j<length (meds s). \<not> pending (meds s ! j)) \<and> meds s \<noteq> []"
    by (simp add: nonePending_nth)
  assume l: "firstLaterAt now (meds s) k"
  then have "nextLoop now 0 s = int k"
    by (intro nextLoop_found) (simp_all add: firstLaterAt_def)
  with n show "confirmFirstPendingMed now a s = emit (nextMed (meds s ! k)) s"
    by (simp add: confirm_none_pending)
next
  fix j
  assume "firstLaterAt now (meds s) k" "sorted (map schedKey (meds s))"
    "j < length (meds s)" "later now (meds s ! j)"
  then show "schedKey (meds s ! k) \<le> schedKey (meds s ! j)"
    by (intro sorted_first_later_soonest [of "meds s" k now j]) (simp_all add: firstLaterAt_def)
next
  assume "nonePending (meds s) \<and> meds s \<noteq> []"
  then have n: "(\<forall>j<length (meds s). \<not> pending (meds s ! j)) \<and> meds s \<noteq> []"
    by (simp add: nonePending_nth)
  assume "\<forall>j<length (meds s). \<not> later now (meds s ! j)"
  then have "nextLoop now 0 s = - 1"
    by (intro nextLoop_none) simp
  with n show "confirmFirstPendingMed now a s = emit (nextMed (meds s ! 0)) s"
    by (simp add: confirm_none_pending)
next
  show "LcdPrint (name m) \<in> set (nextMed m)"
    by (simp add: nextMed_def)
qed

theorem confirm_first_pending_witness:
  "(2 :: uint8) < AFF_COUNT \<and>
   nonePending (meds (init_state :: 16 cint state)) \<and>
   meds (init_state :: 16 cint state) \<noteq> [] \<and>
   firstLaterAt at_0900 (meds (init_state :: 16 cint state)) 1 \<and>
   sorted (map schedKey (meds (init_state :: 16 cint state))) \<and>
   trace (confirmFirstPendingMed at_0900 2 (init_state :: 16 cint state)) =
     [LcdClear, LcdSetCursor 0 0, LcdPrint ''Next Med:'', LcdSetCursor 0 1,
      LcdPrint ''Vitamin D'', LcdPrint '' @'', LcdPrint [], LcdPrint ''13'', LcdPrint '':'',
      LcdPrint [], LcdPrint ''30'', Delay 1400] @ lcdMenu \<and>
   firstPendingAt (meds (checkMedicinesAuto at_0800 (init_state :: 16 cint state))) 0 \<and>
   meds (confirmFirstPendingMed at_0900 2 (checkMedicinesAuto at_0800 (init_state :: 16 cint state))) =
     acknowledge at_0900 0 (meds (checkMedicinesAuto at_0800 (init_state :: 16 cint state)))"
proof -
  let ?s = "init_state :: 16 cint state"
  let ?p = "checkMedicinesAuto at_0800 ?s"
  have a: "(2 :: uint8) < AFF_COUNT"
    by (simp add: AFF_COUNT_def AFFS_def)
  have np: "nonePending (meds ?s)"
    by (simp add: nonePending_def init_state_def meds_init_def)
  have ne: "meds ?s \<noteq> []"
    by (simp add: init_state_def meds_init_def)
  have fl: "firstLaterAt at_0900 (meds ?s) 1"
    by (simp add: firstLaterAt_def later_def at_0900_def init_state_def meds_init_def)
  have so: "sorted (map schedKey (meds ?s))"
    by (simp add: schedKey_def init_state_def meds_init_def)
  have d: "decimal (unat (13 :: uint8)) = ''13''" "decimal (unat (30 :: uint8)) = ''30''"
    "decimal 13 = ''13''" "decimal 30 = ''30''"
    by code_simp+
  have m1: "meds ?s ! Suc 0 =
      \<lparr>name = ''Vitamin D'', hour = 13, minute = 30, pending = False, lastAckYMD = 0\<rparr>"
    by (simp add: init_state_def meds_init_def)
  have tr: "trace ?s = []"
    by (simp add: init_state_def)
  have p: "map pending (meds ?p) = [True, False, False, False]"
    by code_simp
  have l: "0 < length (meds ?p)"
    using arg_cong [OF p, of length] by simp
  have p0: "pending (meds ?p ! 0)"
    using arg_cong [OF p, of "\<lambda>xs. xs ! 0"] l by simp
  have fp: "firstPendingAt (meds ?p) 0"
    using l p0 by (simp add: firstPendingAt_def)
  note A = confirm_first_pending [OF a, of ?s 1 at_0900]
  note B = confirm_first_pending [OF a, of ?p 0 at_0900]
  from A np ne fl have "confirmFirstPendingMed at_0900 2 ?s = emit (nextMed (meds ?s ! 1)) ?s"
    by blast
  then have 1: "trace (confirmFirstPendingMed at_0900 2 ?s) =
     [LcdClear, LcdSetCursor 0 0, LcdPrint ''Next Med:'', LcdSetCursor 0 1,
      LcdPrint ''Vitamin D'', LcdPrint '' @'', LcdPrint [], LcdPrint ''13'', LcdPrint '':'',
      LcdPrint [], LcdPrint ''30'', Delay 1400] @ lcdMenu"
    by (simp add: m1 tr nextMed_def twoDigits_def d)
  from B fp have "confirmFirstPendingMed at_0900 2 ?p =
      ?p\<lparr>meds := acknowledge at_0900 0 (meds ?p), trace := trace ?p @ taken (meds ?p ! 0) 2\<rparr>"
    by blast
  then have 2: "meds (confirmFirstPendingMed at_0900 2 ?p) = acknowledge at_0900 0 (meds ?p)"
    by simp
  from a np ne fl so 1 fp 2 show ?thesis by simp
qed

subsection \<open>Tokens\<close>

lemma of_char_NUL: "(of_char c :: nat) = 0 \<longleftrightarrow> c = CHR 0x00"
  by (cases c) simp

lemma tolower_NUL: "(of_char (tolower c) :: nat) = 0 \<longleftrightarrow> c = CHR 0x00"
proof (cases "65 \<le> (of_char c :: nat) \<and> (of_char c :: nat) \<le> 90")
  case True
  then have "(of_char (tolower c) :: nat) = of_char c + 32"
    by (simp add: tolower_def)
  moreover from True have "c \<noteq> CHR 0x00"
    by auto
  ultimately show ?thesis by simp
next
  case False
  then have "tolower c = c"
    by (auto simp: tolower_def)
  then show ?thesis
    by (simp add: of_char_NUL)
qed

lemma of_char_tolower:
  "(of_char (tolower c) :: nat) = (if upperCase c then of_char c + 32 else of_char c)"
  by (simp add: tolower_def upperCase_def)

lemma tolower_sameLetter: "tolower x = tolower y \<longleftrightarrow> sameLetter x y"
proof -
  have "tolower x = tolower y \<longleftrightarrow> (of_char (tolower x) :: nat) = of_char (tolower y)"
    by simp
  also have "\<dots> \<longleftrightarrow> sameLetter x y"
    unfolding of_char_tolower sameLetter_def
    using of_char_eq_iff [of x y, where 'a = nat]
    by (auto simp: upperCase_def)
  finally show ?thesis .
qed

lemma strcasecmp_zero:
  "CHR 0x00 \<notin> set a \<Longrightarrow> CHR 0x00 \<notin> set b \<Longrightarrow> strcasecmp a b = 0 \<longleftrightarrow> ciMatch a b"
proof (induction a b rule: strcasecmp.induct)
  case 1
  show ?case by (simp add: ciMatch_def tolower_sameLetter)
next
  case (2 b bs)
  then have "b \<noteq> CHR 0x00" by auto
  then have "(of_char (tolower b) :: nat) \<noteq> 0"
    by (simp add: tolower_NUL)
  then show ?case by (simp add: ciMatch_def tolower_sameLetter)
next
  case (3 a as)
  then have "a \<noteq> CHR 0x00" by auto
  then have "(of_char (tolower a) :: nat) \<noteq> 0"
    by (simp add: tolower_NUL)
  then show ?case by (simp add: ciMatch_def tolower_sameLetter)
next
  case (4 a as b bs)
  show ?case
  proof (cases "tolower a = tolower b")
    case True
    with 4 show ?thesis by (simp add: ciMatch_def tolower_sameLetter)
  next
    case False
    then have "(of_char (tolower a) :: nat) \<noteq> of_char (tolower b)"
      by simp
    then have "int (of_char (tolower a)) - int (of_char (tolower b)) \<noteq> 0"
      by simp
    with False show ?thesis by (simp add: ciMatch_def tolower_sameLetter)
  qed
qed

lemma ciMatch_length: "ciMatch a b \<Longrightarrow> length a = length b"
  by (simp add: ciMatch_def list_all2_lengthD)

lemma hexDigit_not_NUL: "d \<le> 15 \<Longrightarrow> hexDigit d \<noteq> CHR 0x00"
proof -
  assume "d \<le> 15"
  then have d: "unat d \<le> 15"
    by (simp add: word_le_nat_alt)
  have "(of_char (hexDigit d) :: nat) \<noteq> 0"
  proof (cases "d < 10")
    case True
    then have "unat d < 10" by (simp add: word_less_nat_alt)
    with True show ?thesis by (simp add: hexDigit_def)
  next
    case False
    with d show ?thesis by (simp add: hexDigit_def)
  qed
  then show ?thesis by (simp add: of_char_NUL)
qed

lemma nibble_not_NUL: "CHR 0x00 \<noteq> hexDigit ((b :: uint8) AND 15)"
  using hexDigit_not_NUL [OF word_and_le1 [of b 15]] by auto

lemma uidToHex_no_NUL: "CHR 0x00 \<notin> set (uidToHex bytes)"
  by (induction bytes) (simp_all add: nibble_not_NUL)

lemma findItem_found:
  "i \<le> k \<Longrightarrow> k < length (knownItems s) \<Longrightarrow>
   strcasecmp uid (uidHex (knownItems s ! k)) = 0 \<Longrightarrow>
   (\<forall>j. i \<le> j \<and> j < k \<longrightarrow> strcasecmp uid (uidHex (knownItems s ! j)) \<noteq> 0) \<Longrightarrow>
   findItem uid i s = int k"
proof (induction uid i s rule: findItem.induct)
  case (1 uid i s)
  show ?case
  proof (cases "i = k")
    case True
    with 1 show ?thesis
      by (subst findItem.simps) (simp add: KNOWN_COUNT_def)
  next
    case False
    with 1 have "i < k" "strcasecmp uid (uidHex (knownItems s ! i)) \<noteq> 0" by auto
    with 1 show ?thesis
      by (subst findItem.simps) (simp add: KNOWN_COUNT_def)
  qed
qed



lemma decimal_nonempty: "Suc 0 \<le> length (decimal n)"
  by (subst decimal.simps) simp

lemma decimal_length: "n < 100 \<Longrightarrow> length (decimal n) = (if n < 10 then 1 else 2)"
proof (cases "n < 10")
  case True
  then show ?thesis by (simp add: decimal.simps [of n])
next
  case False
  assume "n < 100"
  then have "n div 10 < 10" by simp
  with False show ?thesis
    by (simp add: decimal.simps [of n] decimal.simps [of "n div 10"])
qed

lemma decimal_long: "100 \<le> n \<Longrightarrow> 3 \<le> length (decimal n)"
proof -
  assume "100 \<le> n"
  then have "\<not> n < 10" "\<not> n div 10 < 10" by simp_all
  then have "length (decimal n) = length (decimal (n div 10 div 10)) + 2"
    by (simp add: decimal.simps [of n] decimal.simps [of "n div 10"])
  with decimal_nonempty [of "n div 10 div 10"] show ?thesis by linarith
qed

lemma padded_length: "length (padded 2 n) = (if n < 100 then 2 else length (decimal n))"
proof (cases "n < 100")
  case True
  then show ?thesis by (simp add: padded_def decimal_length)
next
  case False
  then have "3 \<le> length (decimal n)" by (simp add: decimal_long)
  with False show ?thesis by (simp add: padded_def)
qed

lemma padded_at_least: "2 \<le> length (padded 2 n)"
proof (cases "n < 100")
  case True
  then show ?thesis by (simp add: padded_length)
next
  case False
  then have "3 \<le> length (decimal n)" by (simp add: decimal_long)
  with False show ?thesis by (simp add: padded_length)
qed

lemma hms_length: "clockFits now \<Longrightarrow> length (hms now) = 8"
  by (simp add: hms_def clockFits_def padded_length word_less_nat_alt)

lemma hms_long: "\<not> clockFits now \<Longrightarrow> 9 \<le> length (hms now)"
proof -
  assume "\<not> clockFits now"
  then consider "100 \<le> unat (dt_hour now)" | "100 \<le> unat (dt_minute now)"
    | "100 \<le> unat (dt_second now)"
    by (auto simp: clockFits_def word_less_nat_alt)
  then show ?thesis
  proof cases
    case 1
    then have "3 \<le> length (padded 2 (unat (dt_hour now)))"
      using decimal_long [of "unat (dt_hour now)"] by (simp add: padded_length)
    with padded_at_least [of "unat (dt_minute now)"] padded_at_least [of "unat (dt_second now)"]
    show ?thesis by (simp add: hms_def)
  next
    case 2
    then have "3 \<le> length (padded 2 (unat (dt_minute now)))"
      using decimal_long [of "unat (dt_minute now)"] by (simp add: padded_length)
    with padded_at_least [of "unat (dt_hour now)"] padded_at_least [of "unat (dt_second now)"]
    show ?thesis by (simp add: hms_def)
  next
    case 3
    then have "3 \<le> length (padded 2 (unat (dt_second now)))"
      using decimal_long [of "unat (dt_second now)"] by (simp add: padded_length)
    with padded_at_least [of "unat (dt_hour now)"] padded_at_least [of "unat (dt_minute now)"]
    show ?thesis by (simp add: hms_def)
  qed
qed

lemma timeToStr_fits: "timeToStr now = (if clockFits now then Some (hms now) else None)"
proof (cases "clockFits now")
  case True
  then show ?thesis by (simp add: timeToStr_def hms_length)
next
  case False
  then have "9 \<le> length (hms now)" by (rule hms_long)
  with False show ?thesis by (simp add: timeToStr_def)
qed


lemma resolveTag_found:
  assumes "cStrings (knownItems s)" "firstMatchAt (uidToHex bytes) (knownItems s) k"
    "tokenFits bytes" "clockFits now"
  shows "resolveTag bytes now s =
    Some (s\<lparr>knownItems := (knownItems s)[k := (knownItems s ! k)\<lparr>lastScanned := hms now\<rparr>],
      trace := trace s @ foundTag ((knownItems s ! k)\<lparr>lastScanned := hms now\<rparr>)\<rparr>)"
proof -
  have eq: "strcasecmp (uidToHex bytes) (uidHex (knownItems s ! j)) = 0 \<longleftrightarrow>
      ciMatch (uidToHex bytes) (uidHex (knownItems s ! j))" if "j < length (knownItems s)" for j
    using that assms(1)
    by (intro strcasecmp_zero uidToHex_no_NUL) (simp add: cStrings_def list_all_length)
  from assms(2) have k: "k < length (knownItems s)"
    by (simp add: firstMatchAt_def)
  have "findItem (uidToHex bytes) 0 s = int k"
  proof (rule findItem_found)
    show "0 \<le> k" by simp
    show "k < length (knownItems s)" by (rule k)
    show "strcasecmp (uidToHex bytes) (uidHex (knownItems s ! k)) = 0"
      using assms(2) eq [OF k] by (simp add: firstMatchAt_def)
    show "\<forall>j. 0 \<le> j \<and> j < k \<longrightarrow> strcasecmp (uidToHex bytes) (uidHex (knownItems s ! j)) \<noteq> 0"
      using assms(2) eq k by (simp add: firstMatchAt_def)
  qed
  with k assms(3,4) hms_length [OF assms(4)] show ?thesis
    by (simp add: resolveTag_def Let_def emit_def tokenFits_def timeToStr_fits)
qed


subsection \<open>The presence loop\<close>

lemma leavesTurn_0:
  "leavesTurn t0 (p # ps) 0 \<longleftrightarrow>
    t_check p - (if card_read p then t_read p else t0) > 300 \<or> sos_line p = LOW"
  by (simp add: leavesTurn_def lastSeenAfter_def)

lemma leavesTurn_Suc:
  "leavesTurn t0 (p # ps) (Suc j) = leavesTurn (if card_read p then t_read p else t0) ps j"
  by (simp add: leavesTurn_def lastSeenAfter_def)

lemma presenceLoop_leave:
  "firstLeaveAt t0 ps k \<Longrightarrow> presenceLoop t0 ps s = Some (emit (replicate k (Delay 20)) s)"
proof (induction ps arbitrary: t0 k s)
  case Nil
  then show ?case by (simp add: firstLeaveAt_def)
next
  case (Cons p ps)
  let ?t = "if card_read p then t_read p else t0"
  show ?case
  proof (cases k)
    case 0
    with Cons.prems have "leavesTurn t0 (p # ps) 0"
      by (simp add: firstLeaveAt_def)
    then have "t_check p - ?t > 300 \<or> sos_line p = LOW"
      by (simp only: leavesTurn_0)
    with 0 show ?thesis
      by (auto simp: Let_def emit_def)
  next
    case (Suc k')
    with Cons.prems have "\<not> leavesTurn t0 (p # ps) 0"
      by (simp add: firstLeaveAt_def)
    then have stay: "\<not> t_check p - ?t > 300" "sos_line p \<noteq> LOW"
      by (simp_all add: leavesTurn_0)
    have "firstLeaveAt ?t ps k'"
      unfolding firstLeaveAt_def
    proof (intro conjI allI impI)
      from Cons.prems Suc show "k' < length ps"
        by (simp add: firstLeaveAt_def)
      from Cons.prems Suc show "leavesTurn ?t ps k'"
        by (simp add: firstLeaveAt_def leavesTurn_Suc)
      fix j assume "j < k'"
      then have "Suc j < k" using Suc by simp
      with Cons.prems have "\<not> leavesTurn t0 (p # ps) (Suc j)"
        by (simp add: firstLeaveAt_def)
      then show "\<not> leavesTurn ?t ps j"
        by (simp add: leavesTurn_Suc)
    qed
    then have "presenceLoop ?t ps (emit [Delay 20] s) =
        Some (emit (replicate k' (Delay 20)) (emit [Delay 20] s))"
      by (rule Cons.IH)
    with stay Suc show ?thesis
      by (simp add: Let_def emit_def)
  qed
qed

lemma presenceLoop_stay:
  "\<forall>j<length ps. \<not> leavesTurn t0 ps j \<Longrightarrow> presenceLoop t0 ps s = None"
proof (induction ps arbitrary: t0 s)
  case Nil
  show ?case by simp
next
  case (Cons p ps)
  let ?t = "if card_read p then t_read p else t0"
  from Cons.prems have "\<not> leavesTurn t0 (p # ps) 0"
    by simp
  then have stay: "\<not> t_check p - ?t > 300" "sos_line p \<noteq> LOW"
    by (simp_all add: leavesTurn_0)
  have "\<forall>j<length ps. \<not> leavesTurn ?t ps j"
  proof (intro allI impI)
    fix j assume "j < length ps"
    with Cons.prems have "\<not> leavesTurn t0 (p # ps) (Suc j)"
      by simp
    then show "\<not> leavesTurn ?t ps j"
      by (simp add: leavesTurn_Suc)
  qed
  then have "presenceLoop ?t ps (emit [Delay 20] s) = None"
    by (rule Cons.IH)
  with stay show ?case
    by (simp add: Let_def)
qed

lemma presenceLoop_Some:
  "presenceLoop t0 ps s = Some s' \<Longrightarrow> \<exists>k. firstLeaveAt t0 ps k \<and> s' = emit (replicate k (Delay 20)) s"
proof -
  assume a: "presenceLoop t0 ps s = Some s'"
  have "\<exists>j<length ps. leavesTurn t0 ps j"
    using presenceLoop_stay [of ps t0 s] a by fastforce
  then obtain j where j: "j < length ps" "leavesTurn t0 ps j" by blast
  define k where "k = (LEAST j. j < length ps \<and> leavesTurn t0 ps j)"
  have 1: "k < length ps \<and> leavesTurn t0 ps k"
    unfolding k_def using j by (intro LeastI [of "\<lambda>j. j < length ps \<and> leavesTurn t0 ps j" j]) simp
  have 2: "\<not> leavesTurn t0 ps i" if "i < k" for i
    using not_less_Least [of i "\<lambda>j. j < length ps \<and> leavesTurn t0 ps j"] that 1
    unfolding k_def by auto
  from 1 2 have f: "firstLeaveAt t0 ps k"
    by (simp add: firstLeaveAt_def)
  from presenceLoop_leave [OF f, of s] a show ?thesis
    using f by auto
qed


lemma presenceLoop_frame:
  "presenceLoop t0 ps s = Some s' \<Longrightarrow> \<exists>k. s' = emit (replicate k (Delay 20)) s"
  using presenceLoop_Some by blast

subsection \<open>The tag lookup\<close>



subsection \<open>The tag session\<close>


lemma keys_at_0900:
  "resolveTag keysTag at_0900 (init_state :: 16 cint state) =
     Some (init_state
       \<lparr>knownItems :=
          [\<lparr>uidHex = ''6C433E06'', itemName = ''Keys'', lastScanned = ''09:00:00''\<rparr>,
           \<lparr>uidHex = ''05F7A904'', itemName = ''Medicine Box'', lastScanned = ''00:00:00''\<rparr>,
           \<lparr>uidHex = ''26B0A304'', itemName = ''Glasses'', lastScanned = ''00:00:00''\<rparr>],
        trace :=
          [LcdClear, LcdSetCursor 0 0, LcdPrint ''Found: '', LcdPrint ''Keys'',
           LcdSetCursor 0 1, LcdPrint ''Last: '', LcdPrint ''09:00:00'']\<rparr>)"
proof -
  let ?s = "init_state :: 16 cint state"
  have c: "cStrings (knownItems ?s)"
    by (simp add: cStrings_def init_state_def knownItems_init_def)
  have k: "uidToHex keysTag = ''6C433E06''"
    by code_simp
  have ci: "ciMatch ''6C433E06'' ''6C433E06''"
    by code_simp
  have items: "knownItems ?s = knownItems_init"
    by (simp add: init_state_def)
  have f: "firstMatchAt (uidToHex keysTag) (knownItems ?s) 0"
    unfolding k items using ci by (simp add: firstMatchAt_def knownItems_init_def)
  have t: "hms at_0900 = ''09:00:00''"
    by code_simp
  have "tokenFits keysTag" "clockFits at_0900"
    by (simp_all add: tokenFits_def keysTag_def clockFits_def at_0900_def)
  from resolveTag_found [OF c f this] show ?thesis
    by (simp add: t items knownItems_init_def foundTag_def init_state_def)
qed



subsection \<open>What each part of a pass leaves alone\<close>

lemma no600_basic [simp]:
  "Delay 600 \<notin> set shortBeep" "Delay 600 \<notin> set longBeep" "Delay 600 \<notin> set lcdMenu"
  "Delay 600 \<notin> set hydrationNudge" "Delay 600 \<notin> set (medDue m)"
  "Delay 600 \<notin> set (taken m a)" "Delay 600 \<notin> set (nextMed m)"
  "Delay 600 \<notin> set memoryPromptScan" "Delay 600 \<notin> set exerciseFlow"
  "Delay 600 \<notin> set (foundTag k)" "Delay 600 \<notin> set (unknownTag u)"
  by (simp_all add: shortBeep_def longBeep_def beepMs_def lcdMenu_def hydrationNudge_def
      medDue_def taken_def nextMed_def twoDigits_def memoryPromptScan_def showTwo_def
      exerciseFlow_def breathCycle_def foundTag_def unknownTag_def)

lemma promptLoop_events: "\<exists>es. promptLoop i s = emit es s \<and> Delay 600 \<notin> set es"
proof (induction i s rule: promptLoop.induct)
  case (1 i s)
  show ?case
  proof (cases "i < MED_COUNT s")
    case False
    then have "promptLoop i s = emit [] s"
      by (subst promptLoop.simps) simp
    then show ?thesis by (intro exI [of _ "[]"]) simp
  next
    case True
    show ?thesis
    proof (cases "pending (meds s ! i)")
      case p: True
      with True have "promptLoop i s = emit (medDue (meds s ! i)) s"
        by (subst promptLoop.simps) simp
      then show ?thesis by (intro exI [of _ "medDue (meds s ! i)"]) simp
    next
      case p: False
      with True have "promptLoop i s = promptLoop (i + 1) s"
        by (subst promptLoop.simps) simp
      with "1.IH" [OF True p] show ?thesis by simp
    qed
  qed
qed

lemma dueLoop_fields [simp]:
  "lastDebounceTime (dueLoop now ymd i s) = lastDebounceTime s"
  "lastActivity (dueLoop now ymd i s) = lastActivity s"
  "knownItems (dueLoop now ymd i s) = knownItems s"
  "lastScheduleCheck (dueLoop now ymd i s) = lastScheduleCheck s"
  by (subst dueLoop_frame, simp)+

lemma promptLoop_fields [simp]:
  "lastDebounceTime (promptLoop i s) = lastDebounceTime s"
  "lastActivity (promptLoop i s) = lastActivity s"
  "knownItems (promptLoop i s) = knownItems s"
  "lastScheduleCheck (promptLoop i s) = lastScheduleCheck s"
  using promptLoop_frame [of i s] by auto

lemma hydrationCheck_fields [simp]:
  "lastDebounceTime (hydrationCheck now s) = lastDebounceTime s"
  "lastActivity (hydrationCheck now s) = lastActivity s"
  "knownItems (hydrationCheck now s) = knownItems s"
  "lastScheduleCheck (hydrationCheck now s) = lastScheduleCheck s"
  by (simp_all add: hydrationCheck_def)

lemma hydrationCheck_events:
  "\<exists>es. trace (hydrationCheck now s) = trace s @ es \<and> Delay 600 \<notin> set es"
proof (cases "dt_minute now = 0 \<and> lastHydrationHour s \<noteq> ucast (dt_hour now)")
  case True
  then have "trace (hydrationCheck now s) = trace s @ hydrationNudge"
    by (simp add: hydrationCheck_def)
  then show ?thesis by (intro exI [of _ hydrationNudge]) simp
next
  case False
  then have "trace (hydrationCheck now s) = trace s @ []"
    by (auto simp: hydrationCheck_def)
  then show ?thesis by (intro exI [of _ "[]"]) simp
qed

lemma checkMedicinesAuto_fields [simp]:
  "lastDebounceTime (checkMedicinesAuto now s) = lastDebounceTime s"
  "lastActivity (checkMedicinesAuto now s) = lastActivity s"
  "knownItems (checkMedicinesAuto now s) = knownItems s"
  "lastScheduleCheck (checkMedicinesAuto now s) = lastScheduleCheck s"
  by (simp_all add: checkMedicinesAuto_def)

lemma checkMedicinesAuto_events:
  "\<exists>es. trace (checkMedicinesAuto now s) = trace s @ es \<and> Delay 600 \<notin> set es"
proof -
  obtain hs where hs: "trace (hydrationCheck now s) = trace s @ hs" "Delay 600 \<notin> set hs"
    using hydrationCheck_events by blast
  obtain es where es:
    "promptLoop 0 (dueLoop now (ymdNow now) 0 (hydrationCheck now s)) =
      emit es (dueLoop now (ymdNow now) 0 (hydrationCheck now s))" "Delay 600 \<notin> set es"
    using promptLoop_events by blast
  have "trace (checkMedicinesAuto now s) = trace s @ (hs @ es)"
    by (simp add: checkMedicinesAuto_def es(1) hs(1))
  with es(2) hs(2) show ?thesis
    by (intro exI [of _ "hs @ es"]) simp
qed

lemma confirmLoop_Some_form:
  "confirmLoop now a i s = Some s' \<Longrightarrow>
   \<exists>k. i \<le> k \<and> k < length (meds s) \<and> pending (meds s ! k) \<and>
       (\<forall>j. i \<le> j \<and> j < k \<longrightarrow> \<not> pending (meds s ! j)) \<and>
       s' = emit (taken (meds s ! k) a) (s\<lparr>meds := acknowledge now k (meds s)\<rparr>)"
proof (induction now a i s rule: confirmLoop.induct)
  case (1 now a i s)
  show ?case
  proof (cases "i < MED_COUNT s")
    case False
    then have "confirmLoop now a i s = None"
      by (subst confirmLoop.simps) simp
    with "1.prems" show ?thesis by simp
  next
    case True
    show ?thesis
    proof (cases "pending (meds s ! i)")
      case p: True
      with True have "confirmLoop now a i s =
          Some (emit (taken (meds s ! i) a) (s\<lparr>meds := acknowledge now i (meds s)\<rparr>))"
        by (subst confirmLoop.simps) (simp add: acknowledge_def)
      with "1.prems" True p show ?thesis
        by (intro exI [of _ i]) (auto simp: MED_COUNT_def)
    next
      case p: False
      with True have "confirmLoop now a i s = confirmLoop now a (i + 1) s"
        by (subst confirmLoop.simps) simp
      with "1.prems" "1.IH" [OF True p] obtain k where k: "i + 1 \<le> k" "k < length (meds s)"
        "pending (meds s ! k)" "\<forall>j. i + 1 \<le> j \<and> j < k \<longrightarrow> \<not> pending (meds s ! j)"
        "s' = emit (taken (meds s ! k) a) (s\<lparr>meds := acknowledge now k (meds s)\<rparr>)"
        by auto
      have "\<forall>j. i \<le> j \<and> j < k \<longrightarrow> \<not> pending (meds s ! j)"
      proof (intro allI impI)
        fix j assume j: "i \<le> j \<and> j < k"
        show "\<not> pending (meds s ! j)"
        proof (cases "j = i")
          case True with p show ?thesis by simp
        next
          case False with j k(4) show ?thesis by simp
        qed
      qed
      with k show ?thesis
        by (intro exI [of _ k]) simp
    qed
  qed
qed

text \<open>The two ways \<open>confirmFirstPendingMed\<close> can go.\<close>

lemma confirm_cases:
  "(\<exists>k. firstPendingAt (meds s) k \<and>
        confirmFirstPendingMed now a s =
          emit (taken (meds s ! k) a) (s\<lparr>meds := acknowledge now k (meds s)\<rparr>)) \<or>
   (nonePending (meds s) \<and>
    (\<exists>es. confirmFirstPendingMed now a s = emit es s \<and> Delay 600 \<notin> set es))"
proof (cases "confirmLoop now a 0 s")
  case None
  have "nonePending (meds s)"
    unfolding nonePending_nth
  proof (intro allI impI, rule notI)
    fix j assume j: "j < length (meds s)" "pending (meds s ! j)"
    define k where "k = (LEAST j. j < length (meds s) \<and> pending (meds s ! j))"
    have 1: "k < length (meds s) \<and> pending (meds s ! k)"
      unfolding k_def using j
      by (intro LeastI [of "\<lambda>j. j < length (meds s) \<and> pending (meds s ! j)" j]) simp
    have 2: "\<not> pending (meds s ! i)" if "i < k" for i
      using not_less_Least [of i "\<lambda>j. j < length (meds s) \<and> pending (meds s ! j)"] that 1
      unfolding k_def by auto
    from 1 2 have "confirmLoop now a 0 s \<noteq> None"
      using confirmLoop_Some [of 0 k s now a] by simp
    with None show False by simp
  qed
  moreover from None have "confirmFirstPendingMed now a s =
      emit (nextMed (meds s ! nat (if nextLoop now 0 s = - 1 then 0 else nextLoop now 0 s))) s"
    by (simp add: confirmFirstPendingMed_def Let_def)
  then have "\<exists>es. confirmFirstPendingMed now a s = emit es s \<and> Delay 600 \<notin> set es"
    by (intro exI [of _ "nextMed (meds s !
      nat (if nextLoop now 0 s = - 1 then 0 else nextLoop now 0 s))"]) simp
  ultimately show ?thesis by blast
next
  case (Some s')
  from confirmLoop_Some_form [OF Some] obtain k where
    "firstPendingAt (meds s) k"
    "s' = emit (taken (meds s ! k) a) (s\<lparr>meds := acknowledge now k (meds s)\<rparr>)"
    by (auto simp: firstPendingAt_def)
  with Some have "firstPendingAt (meds s) k \<and>
        confirmFirstPendingMed now a s =
          emit (taken (meds s ! k) a) (s\<lparr>meds := acknowledge now k (meds s)\<rparr>)"
    by (simp add: confirmFirstPendingMed_def)
  then show ?thesis by blast
qed

lemma confirm_form:
  "\<exists>es ms. confirmFirstPendingMed now a s = emit es (s\<lparr>meds := ms\<rparr>) \<and> Delay 600 \<notin> set es"
  using confirm_cases [of s now a]
proof (elim disjE exE conjE)
  fix k
  assume "confirmFirstPendingMed now a s =
          emit (taken (meds s ! k) a) (s\<lparr>meds := acknowledge now k (meds s)\<rparr>)"
  then show ?thesis
    by (intro exI [of _ "taken (meds s ! k) a"] exI [of _ "acknowledge now k (meds s)"]) simp
next
  fix es
  assume "confirmFirstPendingMed now a s = emit es s" "Delay 600 \<notin> set es"
  then show ?thesis
    by (intro exI [of _ es] exI [of _ "meds s"]) simp
qed

lemma confirm_fields [simp]:
  "lastDebounceTime (confirmFirstPendingMed now a s) = lastDebounceTime s"
  "lastActivity (confirmFirstPendingMed now a s) = lastActivity s"
  "knownItems (confirmFirstPendingMed now a s) = knownItems s"
  "lastScheduleCheck (confirmFirstPendingMed now a s) = lastScheduleCheck s"
  "lastHydrationHour (confirmFirstPendingMed now a s) = lastHydrationHour s"
proof -
  obtain es ms where eq: "confirmFirstPendingMed now a s = emit es (s\<lparr>meds := ms\<rparr>)"
    using confirm_form by blast
  show "lastDebounceTime (confirmFirstPendingMed now a s) = lastDebounceTime s"
    "lastActivity (confirmFirstPendingMed now a s) = lastActivity s"
    "knownItems (confirmFirstPendingMed now a s) = knownItems s"
    "lastScheduleCheck (confirmFirstPendingMed now a s) = lastScheduleCheck s"
    "lastHydrationHour (confirmFirstPendingMed now a s) = lastHydrationHour s"
    by (simp_all add: eq)
qed

lemma confirm_events:
  "\<exists>es. trace (confirmFirstPendingMed now a s) = trace s @ es \<and> Delay 600 \<notin> set es"
proof -
  obtain es ms where eq: "confirmFirstPendingMed now a s = emit es (s\<lparr>meds := ms\<rparr>)"
    "Delay 600 \<notin> set es"
    using confirm_form by blast
  then show ?thesis
    by (intro exI [of _ es]) simp
qed

lemma readBtnOnce_fields [simp]:
  "meds (snd (readBtnOnce pins now pin idx s)) = meds s"
  "knownItems (snd (readBtnOnce pins now pin idx s)) = knownItems s"
  "lastScheduleCheck (snd (readBtnOnce pins now pin idx s)) = lastScheduleCheck s"
  "lastHydrationHour (snd (readBtnOnce pins now pin idx s)) = lastHydrationHour s"
  by (simp_all add: readBtnOnce_def)

lemma readBtnOnce_events:
  "\<exists>es. trace (snd (readBtnOnce pins now pin idx s)) = trace s @ es \<and> Delay 600 \<notin> set es"
proof (cases "fst (readBtnOnce pins now pin idx s)")
  case True
  then have "trace (snd (readBtnOnce pins now pin idx s)) = trace s @ shortBeep"
    by (simp add: readBtnOnce_def split: if_splits)
  then show ?thesis by (intro exI [of _ shortBeep]) simp
next
  case False
  then have "trace (snd (readBtnOnce pins now pin idx s)) = trace s @ []"
    by (simp add: readBtnOnce_def split: if_splits)
  then show ?thesis by (intro exI [of _ "[]"]) simp
qed

lemma readBtnOnce_cell:
  "idx \<noteq> j \<Longrightarrow>
   lastDebounceTime (snd (readBtnOnce pins now pin idx s)) ! j = lastDebounceTime s ! j"
  by (simp add: readBtnOnce_def)

lemma readBtnOnce_cells_length [simp]:
  "length (lastDebounceTime (snd (readBtnOnce pins now pin idx s))) = length (lastDebounceTime s)"
  by (simp add: readBtnOnce_def)

lemma resolveTag_form:
  "resolveTag bytes now s = Some r \<Longrightarrow>
   \<exists>es ks. r = emit es (s\<lparr>knownItems := ks\<rparr>) \<and> Delay 600 \<notin> set es"
proof -
  assume a: "resolveTag bytes now s = Some r"
  then obtain tbuf where t: "timeToStr now = Some tbuf"
    by (cases "timeToStr now") (simp_all add: resolveTag_def Let_def split: if_splits)
  show ?thesis
  proof (cases "0 \<le> findItem (uidToHex bytes) 0 s")
    case True
    let ?i = "nat (findItem (uidToHex bytes) 0 s)"
    let ?ks = "(knownItems s)[?i := (knownItems s ! ?i)\<lparr>lastScanned := take 8 tbuf\<rparr>]"
    from a t True have "r = emit (foundTag (?ks ! ?i)) (s\<lparr>knownItems := ?ks\<rparr>)"
      by (simp add: resolveTag_def Let_def split: if_splits)
    then show ?thesis
      by (intro exI [of _ "foundTag (?ks ! ?i)"] exI [of _ ?ks]) simp
  next
    case False
    with a t have "r = emit (unknownTag (uidToHex bytes)) (s\<lparr>knownItems := knownItems s\<rparr>)"
      by (simp add: resolveTag_def Let_def split: if_splits)
    then show ?thesis
      by (intro exI [of _ "unknownTag (uidToHex bytes)"] exI [of _ "knownItems s"]) simp
  qed
qed

lemma handleRFID_Auto_form:
  "handleRFID_Auto tag now t0 polls s = Inr s' \<Longrightarrow>
   \<exists>es ks. s' = emit es (s\<lparr>knownItems := ks\<rparr>) \<and> Delay 600 \<notin> set es"
proof (cases tag)
  case None
  assume "handleRFID_Auto tag now t0 polls s = Inr s'"
  with None have "s' = emit [] (s\<lparr>knownItems := knownItems s\<rparr>)"
    by (simp add: handleRFID_Auto_def)
  then show ?thesis
    by (intro exI [of _ "[]"] exI [of _ "knownItems s"]) simp
next
  case (Some bytes)
  assume h: "handleRFID_Auto tag now t0 polls s = Inr s'"
  with Some obtain r where r: "resolveTag bytes now s = Some r"
    by (cases "resolveTag bytes now s") (simp_all add: handleRFID_Auto_def)
  with h Some obtain s1 where
    s1: "presenceLoop t0 polls (emit [DigitalWrite BUZZER_PIN HIGH] r) = Some s1"
    and s': "s' = emit ([DigitalWrite BUZZER_PIN LOW, PiccHaltA, PcdStopCrypto1] @ lcdMenu) s1"
    by (cases "presenceLoop t0 polls (emit [DigitalWrite BUZZER_PIN HIGH] r)")
       (simp_all add: handleRFID_Auto_def)
  from presenceLoop_frame [OF s1] obtain n where
    n: "s1 = emit (replicate n (Delay 20)) (emit [DigitalWrite BUZZER_PIN HIGH] r)"
    by blast
  from resolveTag_form [OF r] obtain es ks where
    es: "r = emit es (s\<lparr>knownItems := ks\<rparr>)" "Delay 600 \<notin> set es"
    by blast
  let ?all = "es @ [DigitalWrite BUZZER_PIN HIGH] @ replicate n (Delay 20) @
      [DigitalWrite BUZZER_PIN LOW, PiccHaltA, PcdStopCrypto1] @ lcdMenu"
  have "s' = emit ?all (s\<lparr>knownItems := ks\<rparr>)"
    by (simp add: s' n es(1) emit_emit)
  moreover have "Delay 600 \<notin> set ?all"
    using es(2) by simp
  ultimately show ?thesis
    by blast
qed

lemma sosLoop_form: "sosLoop start ts s = Some s' \<Longrightarrow> \<exists>es. s' = emit es s"
proof (induction ts arbitrary: s)
  case Nil
  then show ?case by simp
next
  case (Cons t ts)
  show ?case
  proof (cases "t - start < SOS_DURATION")
    case True
    with Cons.prems have "sosLoop start ts (emit sosPattern s) = Some s'"
      by simp
    from Cons.IH [OF this] obtain es where "s' = emit es (emit sosPattern s)"
      by blast
    then have "s' = emit (sosPattern @ es) s"
      by (simp add: emit_emit)
    then show ?thesis by blast
  next
    case False
    with Cons.prems have "s' = emit [] s" by simp
    then show ?thesis by blast
  qed
qed

lemma sosFlow_form:
  "sosFlow start ts s = Some s' \<Longrightarrow> \<exists>es. s' = emit (sosOpening @ es @ sosClosing) s"
proof -
  assume a: "sosFlow start ts s = Some s'"
  then obtain s1 where s1: "sosLoop start ts (emit sosOpening s) = Some s1"
    and s': "s' = emit sosClosing s1"
    by (cases "sosLoop start ts (emit sosOpening s)") (simp_all add: sosFlow_def)
  from sosLoop_form [OF s1] obtain es where "s1 = emit es (emit sosOpening s)"
    by blast
  with s' have "s' = emit (sosOpening @ es @ sosClosing) s"
    by (simp add: emit_emit)
  then show ?thesis by blast
qed

lemma sosOpening_alert: "sosAlertIn (xs @ sosOpening @ ys)"
  by (simp add: sosAlertIn_def sosOpening_def)

lemma no600_no_alert: "Delay 600 \<notin> set es \<Longrightarrow> \<not> sosAlertIn es"
  by (simp add: sosAlertIn_def)

text \<open>The parts of \<open>loop\<close>, one by one.\<close>

lemma loop_schedule_fields [simp]:
  "lastDebounceTime (loop_schedule x s) = lastDebounceTime s"
  "lastActivity (loop_schedule x s) = lastActivity s"
  "knownItems (loop_schedule x s) = knownItems s"
  "length (meds (loop_schedule x s)) = length (meds s)"
  by (simp_all add: loop_schedule_def)

lemma loop_schedule_events:
  "\<exists>es. trace (loop_schedule x s) = trace s @ es \<and> Delay 600 \<notin> set es"
proof (cases "sched_t x - lastScheduleCheck s \<ge> SCHEDULE_CHECK_MS")
  case True
  obtain es where "trace (checkMedicinesAuto (sched_now x) (s\<lparr>lastScheduleCheck := sched_t2 x\<rparr>)) =
      trace (s\<lparr>lastScheduleCheck := sched_t2 x\<rparr>) @ es" "Delay 600 \<notin> set es"
    using checkMedicinesAuto_events by blast
  with True show ?thesis
    by (intro exI [of _ es]) (simp add: loop_schedule_def)
next
  case False
  then show ?thesis
    by (intro exI [of _ "[]"]) (simp add: loop_schedule_def)
qed

lemma loop_memory_fields [simp]:
  "meds (loop_memory x s) = meds s"
  "knownItems (loop_memory x s) = knownItems s"
  "lastScheduleCheck (loop_memory x s) = lastScheduleCheck s"
  "lastHydrationHour (loop_memory x s) = lastHydrationHour s"
  by (simp_all add: loop_memory_def readBtnOnce_def)

lemma loop_memory_cell:
  "j \<noteq> 0 \<Longrightarrow> lastDebounceTime (loop_memory x s) ! j = lastDebounceTime s ! j"
  by (simp add: loop_memory_def readBtnOnce_def)

lemma loop_memory_events:
  "\<exists>es. trace (loop_memory x s) = trace s @ es \<and> Delay 600 \<notin> set es"
proof (cases "fst (readBtnOnce (mem_pins x) (mem_t x) BTN_MEMORY_PIN 0 s)")
  case True
  then have "trace (loop_memory x s) = trace s @ (shortBeep @ memoryPromptScan)"
    by (simp add: loop_memory_def readBtnOnce_def split: if_splits)
  then show ?thesis by (intro exI [of _ "shortBeep @ memoryPromptScan"]) simp
next
  case False
  then have "trace (loop_memory x s) = trace s @ []"
    by (simp add: loop_memory_def readBtnOnce_def split: if_splits)
  then show ?thesis by (intro exI [of _ "[]"]) simp
qed

lemma loop_exercise_fields [simp]:
  "meds (loop_exercise x s) = meds s"
  "knownItems (loop_exercise x s) = knownItems s"
  "lastScheduleCheck (loop_exercise x s) = lastScheduleCheck s"
  "lastHydrationHour (loop_exercise x s) = lastHydrationHour s"
  by (simp_all add: loop_exercise_def readBtnOnce_def)

lemma loop_exercise_cell:
  "j \<noteq> 2 \<Longrightarrow> lastDebounceTime (loop_exercise x s) ! j = lastDebounceTime s ! j"
  by (simp add: loop_exercise_def readBtnOnce_def)

lemma loop_exercise_events:
  "\<exists>es. trace (loop_exercise x s) = trace s @ es \<and> Delay 600 \<notin> set es"
proof (cases "fst (readBtnOnce (ex_pins x) (ex_t x) BTN_EX_PIN 2 s)")
  case True
  then have "trace (loop_exercise x s) = trace s @ (shortBeep @ exerciseFlow)"
    by (simp add: loop_exercise_def readBtnOnce_def split: if_splits)
  then show ?thesis by (intro exI [of _ "shortBeep @ exerciseFlow"]) simp
next
  case False
  then have "trace (loop_exercise x s) = trace s @ []"
    by (simp add: loop_exercise_def readBtnOnce_def split: if_splits)
  then show ?thesis by (intro exI [of _ "[]"]) simp
qed

lemma loop_med_cases:
  "(fst (readBtnOnce (med_pins x) (med_t x) BTN_MED_PIN 1 s) \<and>
    loop_med x s =
      confirmFirstPendingMed (med_now x) (med_rand x)
        (snd (readBtnOnce (med_pins x) (med_t x) BTN_MED_PIN 1 s))) \<or>
   (\<not> fst (readBtnOnce (med_pins x) (med_t x) BTN_MED_PIN 1 s) \<and> loop_med x s = s)"
  by (simp add: loop_med_def readBtnOnce_def)

lemma loop_med_fields [simp]:
  "knownItems (loop_med x s) = knownItems s"
  "lastScheduleCheck (loop_med x s) = lastScheduleCheck s"
  "lastHydrationHour (loop_med x s) = lastHydrationHour s"
  using loop_med_cases [of x s] by auto

lemma loop_med_cell:
  "j \<noteq> 1 \<Longrightarrow> lastDebounceTime (loop_med x s) ! j = lastDebounceTime s ! j"
  using loop_med_cases [of x s] by (auto simp: readBtnOnce_cell)

lemma loop_med_events:
  "\<exists>es. trace (loop_med x s) = trace s @ es \<and> Delay 600 \<notin> set es"
  using loop_med_cases [of x s]
proof (elim disjE conjE)
  let ?b = "snd (readBtnOnce (med_pins x) (med_t x) BTN_MED_PIN 1 s)"
  assume "loop_med x s = confirmFirstPendingMed (med_now x) (med_rand x) ?b"
  moreover obtain bs where "trace ?b = trace s @ bs" "Delay 600 \<notin> set bs"
    using readBtnOnce_events by blast
  moreover obtain cs where
    "trace (confirmFirstPendingMed (med_now x) (med_rand x) ?b) = trace ?b @ cs"
    "Delay 600 \<notin> set cs"
    using confirm_events by blast
  ultimately show ?thesis
    by (intro exI [of _ "bs @ cs"]) simp
next
  assume "loop_med x s = s"
  then show ?thesis by (intro exI [of _ "[]"]) simp
qed

lemma loop_idle_fields [simp]:
  "meds (loop_idle x s) = meds s"
  "knownItems (loop_idle x s) = knownItems s"
  "lastDebounceTime (loop_idle x s) = lastDebounceTime s"
  "lastScheduleCheck (loop_idle x s) = lastScheduleCheck s"
  "lastHydrationHour (loop_idle x s) = lastHydrationHour s"
  by (simp_all add: loop_idle_def)

lemma loop_idle_events:
  "\<exists>es. trace (loop_idle x s) = trace s @ es \<and> Delay 600 \<notin> set es"
proof (cases "idle_t x - lastActivity s > IDLE_MENU_MS")
  case True
  then have "trace (loop_idle x s) = trace s @ (lcdMenu @ [Delay 20])"
    by (simp add: loop_idle_def)
  then show ?thesis by (intro exI [of _ "lcdMenu @ [Delay 20]"]) simp
next
  case False
  then have "trace (loop_idle x s) = trace s @ [Delay 20]"
    by (simp add: loop_idle_def)
  then show ?thesis by (intro exI [of _ "[Delay 20]"]) simp
qed

lemma loop_sos_cases:
  "loop_sos x s = Some s' \<Longrightarrow>
   (sos_pins x BTN_SOS_PIN = LOW \<and> sos_t x - lastDebounceTime s ! 3 > DEBOUNCE_MS \<and>
    (\<exists>es. s' = emit (sosOpening @ es @ sosClosing)
              (s\<lparr>lastDebounceTime := (lastDebounceTime s)[3 := sos_t x]\<rparr>))) \<or>
   (\<not> (sos_pins x BTN_SOS_PIN = LOW \<and> sos_t x - lastDebounceTime s ! 3 > DEBOUNCE_MS) \<and>
    s' = s)"
proof (cases "sos_pins x BTN_SOS_PIN = LOW \<and> sos_t x - lastDebounceTime s ! 3 > DEBOUNCE_MS")
  case True
  assume "loop_sos x s = Some s'"
  with True have "sosFlow (sos_start x) (sos_ts x)
      (s\<lparr>lastDebounceTime := (lastDebounceTime s)[3 := sos_t x]\<rparr>) = Some s'"
    by (simp add: loop_sos_def)
  from sosFlow_form [OF this] True show ?thesis
    by blast
next
  case False
  assume "loop_sos x s = Some s'"
  with False have "s' = s"
    by (auto simp: loop_sos_def split: if_splits)
  with False show ?thesis by blast
qed

lemma loop_Inr:
  "loop x s = Inr s' \<Longrightarrow>
   \<exists>s1 s2. handleRFID_Auto (rfid_card x) (rfid_now x) (rfid_seen x) (rfid_polls x) s = Inr s1 \<and>
     loop_sos x (loop_exercise x (loop_med x (loop_memory x (loop_schedule x s1)))) = Some s2 \<and>
     s' = loop_idle x s2"
  by (auto simp: loop_def split: sum.splits option.splits)

subsection \<open>SOS and the tag session\<close>

lemma loop_events:
  assumes "loop x s = Inr s'"
  shows "\<exists>es. trace s' = trace s @ es \<and>
    (sosAlertIn es \<longleftrightarrow>
       sos_pins x BTN_SOS_PIN = LOW \<and> sos_t x - lastDebounceTime s ! 3 > DEBOUNCE_MS)"
proof -
  from loop_Inr [OF assms] obtain s1 s2 where
    h: "handleRFID_Auto (rfid_card x) (rfid_now x) (rfid_seen x) (rfid_polls x) s = Inr s1"
    and so: "loop_sos x (loop_exercise x (loop_med x (loop_memory x (loop_schedule x s1)))) =
      Some s2"
    and s': "s' = loop_idle x s2"
    by blast
  let ?a = "loop_schedule x s1"
  let ?b = "loop_memory x ?a"
  let ?c = "loop_med x ?b"
  let ?d = "loop_exercise x ?c"
  from handleRFID_Auto_form [OF h] obtain e1 ks where
    e1: "s1 = emit e1 (s\<lparr>knownItems := ks\<rparr>)" "Delay 600 \<notin> set e1"
    by blast
  obtain e2 where e2: "trace ?a = trace s1 @ e2" "Delay 600 \<notin> set e2"
    using loop_schedule_events by blast
  obtain e3 where e3: "trace ?b = trace ?a @ e3" "Delay 600 \<notin> set e3"
    using loop_memory_events by blast
  obtain e4 where e4: "trace ?c = trace ?b @ e4" "Delay 600 \<notin> set e4"
    using loop_med_events by blast
  obtain e5 where e5: "trace ?d = trace ?c @ e5" "Delay 600 \<notin> set e5"
    using loop_exercise_events by blast
  obtain e7 where e7: "trace s' = trace s2 @ e7" "Delay 600 \<notin> set e7"
    unfolding s' using loop_idle_events by blast
  have t1: "trace s1 = trace s @ e1" and c1: "lastDebounceTime s1 = lastDebounceTime s"
    by (simp_all add: e1(1))
  have td: "trace ?d = trace s @ (e1 @ e2 @ e3 @ e4 @ e5)"
    by (simp add: e5(1) e4(1) e3(1) e2(1) t1)
  have cell: "lastDebounceTime ?d ! 3 = lastDebounceTime s ! 3"
    by (simp add: loop_exercise_cell loop_med_cell loop_memory_cell c1)
  from loop_sos_cases [OF so] show ?thesis
  proof (elim disjE conjE exE)
    fix es
    assume c: "sos_pins x BTN_SOS_PIN = LOW" "DEBOUNCE_MS < sos_t x - lastDebounceTime ?d ! 3"
      and s2: "s2 = emit (sosOpening @ es @ sosClosing)
        (?d\<lparr>lastDebounceTime := (lastDebounceTime ?d)[3 := sos_t x]\<rparr>)"
    have "trace s' = trace s @ ((e1 @ e2 @ e3 @ e4 @ e5) @ sosOpening @ (es @ sosClosing @ e7))"
      by (simp add: e7(1) s2 td)
    moreover have "sosAlertIn ((e1 @ e2 @ e3 @ e4 @ e5) @ sosOpening @ (es @ sosClosing @ e7))"
      by (rule sosOpening_alert)
    ultimately show ?thesis
      using c cell by (intro exI [of _ "(e1 @ e2 @ e3 @ e4 @ e5) @ sosOpening @
        (es @ sosClosing @ e7)"]) simp
  next
    assume c: "\<not> (sos_pins x BTN_SOS_PIN = LOW \<and> DEBOUNCE_MS < sos_t x - lastDebounceTime ?d ! 3)"
      and s2: "s2 = ?d"
    have "trace s' = trace s @ (e1 @ e2 @ e3 @ e4 @ e5 @ e7)"
      by (simp add: e7(1) s2 td)
    moreover have "\<not> sosAlertIn (e1 @ e2 @ e3 @ e4 @ e5 @ e7)"
      using e1(2) e2(2) e3(2) e4(2) e5(2) e7(2) by (intro no600_no_alert) simp
    ultimately show ?thesis
      using c cell by (intro exI [of _ "e1 @ e2 @ e3 @ e4 @ e5 @ e7"]) simp
  qed
qed

text \<open>
  C9. In a turn of the presence loop in which the SOS line reads \<open>LOW\<close> the loop leaves,
  whatever the debounce cells hold: the test does not read them. The handler then writes
  the buzzer pin 8 \<open>LOW\<close>, halts the reader and redraws the menu, and that is all:
  \<open>handleRFID_Auto\<close> changes neither the debounce cells nor \<open>lastActivity\<close>, and the SOS
  alert (banner and \<open>delay(600)\<close>) is not among what it writes. In a whole pass of \<open>loop\<close>
  the alert is written exactly when, at the SOS check of the pass, the line reads \<open>LOW\<close>
  and more than \<open>DEBOUNCE_MS\<close> have passed since the time in cell 3, the cell being as it was
  when the pass began.
\<close>

theorem sos_ends_tag_session:
  "(sos_line (polls ! k) = LOW \<longrightarrow> leavesTurn t0 polls k) \<and>
   (resolveTag bytes now s = Some r \<and> firstLeaveAt t0 polls k \<longrightarrow>
      handleRFID_Auto (Some bytes) now t0 polls s =
        Inr (r\<lparr>trace := trace r @ [DigitalWrite 8 HIGH] @ replicate k (Delay 20) @
                  [DigitalWrite 8 LOW, PiccHaltA, PcdStopCrypto1,
                   LcdClear, LcdSetCursor 0 0, LcdPrint ''1:Memory 2:Meds'',
                   LcdSetCursor 0 1, LcdPrint ''3:Exerc  4:SOS '']\<rparr>)) \<and>
   (handleRFID_Auto tag now t0 polls s = Inr s' \<longrightarrow>
      lastDebounceTime s' = lastDebounceTime s \<and> lastActivity s' = lastActivity s \<and>
      (\<exists>es. trace s' = trace s @ es \<and> \<not> sosAlertIn es)) \<and>
   (loop x s = Inr s'' \<longrightarrow>
      (\<exists>es. trace s'' = trace s @ es \<and>
         (sosAlertIn es \<longleftrightarrow>
            sos_pins x BTN_SOS_PIN = LOW \<and> sos_t x - lastDebounceTime s ! 3 > DEBOUNCE_MS))) \<and>
   (sosAlertIn evs \<longleftrightarrow>
      Delay 600 \<in> set evs \<and> LcdPrint ''!!! SOS ALERT !!!'' \<in> set evs) \<and>
   BTN_SOS_PIN = 5 \<and> DEBOUNCE_MS = 200"
proof (intro conjI impI)
  assume "sos_line (polls ! k) = LOW"
  then show "leavesTurn t0 polls k"
    by (simp add: leavesTurn_def)
next
  assume h: "resolveTag bytes now s = Some r \<and> firstLeaveAt t0 polls k"
  then have "presenceLoop t0 polls (emit [DigitalWrite BUZZER_PIN HIGH] r) =
      Some (emit (replicate k (Delay 20)) (emit [DigitalWrite BUZZER_PIN HIGH] r))"
    by (intro presenceLoop_leave) simp
  with h show "handleRFID_Auto (Some bytes) now t0 polls s =
        Inr (r\<lparr>trace := trace r @ [DigitalWrite 8 HIGH] @ replicate k (Delay 20) @
                  [DigitalWrite 8 LOW, PiccHaltA, PcdStopCrypto1,
                   LcdClear, LcdSetCursor 0 0, LcdPrint ''1:Memory 2:Meds'',
                   LcdSetCursor 0 1, LcdPrint ''3:Exerc  4:SOS '']\<rparr>)"
    by (simp add: handleRFID_Auto_def emit_def lcdMenu_def BUZZER_PIN_def)
next
  assume "handleRFID_Auto tag now t0 polls s = Inr s'"
  from handleRFID_Auto_form [OF this] obtain es ks where
    es: "s' = emit es (s\<lparr>knownItems := ks\<rparr>)" "Delay 600 \<notin> set es"
    by blast
  show "lastDebounceTime s' = lastDebounceTime s"
    by (simp add: es(1))
  show "lastActivity s' = lastActivity s"
    by (simp add: es(1))
  from es have "trace s' = trace s @ es \<and> \<not> sosAlertIn es"
    by (simp add: no600_no_alert)
  then show "\<exists>es. trace s' = trace s @ es \<and> \<not> sosAlertIn es"
    by blast
next
  assume "loop x s = Inr s''"
  then show "\<exists>es. trace s'' = trace s @ es \<and>
         (sosAlertIn es \<longleftrightarrow>
            sos_pins x BTN_SOS_PIN = LOW \<and> sos_t x - lastDebounceTime s ! 3 > DEBOUNCE_MS)"
    by (rule loop_events)
next
  show "sosAlertIn evs \<longleftrightarrow>
      Delay 600 \<in> set evs \<and> LcdPrint ''!!! SOS ALERT !!!'' \<in> set evs"
    by (simp add: sosAlertIn_def)
  show "BTN_SOS_PIN = 5"
    by (simp add: BTN_SOS_PIN_def)
  show "DEBOUNCE_MS = 200"
    by (simp add: DEBOUNCE_MS_def)
qed

theorem sos_ends_tag_session_witness:
  "sos_line (sosTurns ! 1) = LOW \<and> leavesTurn 1000 sosTurns 1 \<and>
   firstLeaveAt 1000 sosTurns 1 \<and>
   handleRFID_Auto (Some keysTag) at_0900 1000 sosTurns (init_state :: 16 cint state) =
     Inr (init_state
       \<lparr>knownItems :=
          [\<lparr>uidHex = ''6C433E06'', itemName = ''Keys'', lastScanned = ''09:00:00''\<rparr>,
           \<lparr>uidHex = ''05F7A904'', itemName = ''Medicine Box'', lastScanned = ''00:00:00''\<rparr>,
           \<lparr>uidHex = ''26B0A304'', itemName = ''Glasses'', lastScanned = ''00:00:00''\<rparr>],
        trace :=
          [LcdClear, LcdSetCursor 0 0, LcdPrint ''Found: '', LcdPrint ''Keys'',
           LcdSetCursor 0 1, LcdPrint ''Last: '', LcdPrint ''09:00:00'',
           DigitalWrite 8 HIGH, Delay 20,
           DigitalWrite 8 LOW, PiccHaltA, PcdStopCrypto1,
           LcdClear, LcdSetCursor 0 0, LcdPrint ''1:Memory 2:Meds'',
           LcdSetCursor 0 1, LcdPrint ''3:Exerc  4:SOS '']\<rparr>) \<and>
   \<not> isl (loop tagSosPass (init_state :: 16 cint state)) \<and>
   sosAlertIn (trace (projr (loop tagSosPass (init_state :: 16 cint state)))) \<and>
   \<not> isl (loop tagOnlyPass (init_state :: 16 cint state)) \<and>
   \<not> sosAlertIn (trace (projr (loop tagOnlyPass (init_state :: 16 cint state))))"
proof -
  let ?s = "init_state :: 16 cint state"
  let ?r = "?s
       \<lparr>knownItems :=
          [\<lparr>uidHex = ''6C433E06'', itemName = ''Keys'', lastScanned = ''09:00:00''\<rparr>,
           \<lparr>uidHex = ''05F7A904'', itemName = ''Medicine Box'', lastScanned = ''00:00:00''\<rparr>,
           \<lparr>uidHex = ''26B0A304'', itemName = ''Glasses'', lastScanned = ''00:00:00''\<rparr>],
        trace :=
          [LcdClear, LcdSetCursor 0 0, LcdPrint ''Found: '', LcdPrint ''Keys'',
           LcdSetCursor 0 1, LcdPrint ''Last: '', LcdPrint ''09:00:00'']\<rparr>"
  have low: "sos_line (sosTurns ! 1) = LOW"
    by (simp add: sosTurns_def)
  have q0: "\<not> leavesTurn 1000 sosTurns 0"
    by code_simp
  note A = sos_ends_tag_session [of sosTurns 1 1000 keysTag at_0900 ?s ?r _ _ tagSosPass
      "projr (loop tagSosPass ?s)"]
  note B = sos_ends_tag_session [of sosTurns 1 1000 keysTag at_0900 ?s ?r _ _ tagOnlyPass
      "projr (loop tagOnlyPass ?s)"]
  from A low have q1: "leavesTurn 1000 sosTurns 1"
    by blast
  have fs: "firstLeaveAt 1000 sosTurns 1"
    using q0 q1 by (simp add: firstLeaveAt_def) (simp add: sosTurns_def)
  have r: "resolveTag keysTag at_0900 ?s = Some ?r"
    by (rule keys_at_0900)
  from A r fs have 1: "handleRFID_Auto (Some keysTag) at_0900 1000 sosTurns ?s =
      Inr (?r\<lparr>trace := trace ?r @ [DigitalWrite 8 HIGH] @ replicate 1 (Delay 20) @
                  [DigitalWrite 8 LOW, PiccHaltA, PcdStopCrypto1,
                   LcdClear, LcdSetCursor 0 0, LcdPrint ''1:Memory 2:Meds'',
                   LcdSetCursor 0 1, LcdPrint ''3:Exerc  4:SOS '']\<rparr>)"
    by blast
  have i1: "\<not> isl (loop tagSosPass ?s)"
    by code_simp
  have i2: "\<not> isl (loop tagOnlyPass ?s)"
    by code_simp
  have e1: "loop tagSosPass ?s = Inr (projr (loop tagSosPass ?s))"
    using i1 by (cases "loop tagSosPass ?s") simp_all
  have e2: "loop tagOnlyPass ?s = Inr (projr (loop tagOnlyPass ?s))"
    using i2 by (cases "loop tagOnlyPass ?s") simp_all
  have c1: "sos_pins tagSosPass BTN_SOS_PIN = LOW \<and>
      sos_t tagSosPass - lastDebounceTime ?s ! 3 > DEBOUNCE_MS"
    by (simp add: tagSosPass_def sosPass_def quietPass_def allLow_def init_state_def
        DEBOUNCE_MS_def)
  have c2: "\<not> (sos_pins tagOnlyPass BTN_SOS_PIN = LOW \<and>
      sos_t tagOnlyPass - lastDebounceTime ?s ! 3 > DEBOUNCE_MS)"
    by (simp add: tagOnlyPass_def tagSosPass_def sosPass_def quietPass_def allHigh_def)
  have t0: "trace ?s = []"
    by (simp add: init_state_def)
  from A e1 c1 obtain es where "trace (projr (loop tagSosPass ?s)) = trace ?s @ es" "sosAlertIn es"
    by blast
  then have 2: "sosAlertIn (trace (projr (loop tagSosPass ?s)))"
    by (simp add: t0)
  from B e2 c2 obtain es' where "trace (projr (loop tagOnlyPass ?s)) = trace ?s @ es'"
    "\<not> sosAlertIn es'"
    by blast
  then have 3: "\<not> sosAlertIn (trace (projr (loop tagOnlyPass ?s)))"
    by (simp add: t0)
  from low q1 fs 1 i1 2 i2 3 show ?thesis
    by simp
qed

subsection \<open>The inline SOS check\<close>

text \<open>
  C10. When the SOS line reads \<open>LOW\<close> at the check in \<open>loop\<close> and more than \<open>DEBOUNCE_MS\<close>
  have passed since the time in cell 3, \<open>sosFlow\<close> starts on the globals as they were, with
  cell 3 set to the current time and nothing else changed. When the flow has returned,
  the globals still differ from those before the check in cell 3 and the trace only:
  \<open>lastActivity\<close> is as before, and the first thing written is the alert banner, not the
  beep of \<open>readBtnOnce\<close>. So the idle test at the end of the pass measures from the
  \<open>lastActivity\<close> of before the press. An accepted press of one of the other three
  buttons sets \<open>lastActivity\<close> to the current time and writes the beep first.
\<close>

theorem sos_inline_check:
  "(sos_pins x BTN_SOS_PIN = LOW \<and> sos_t x - lastDebounceTime s ! 3 > DEBOUNCE_MS \<longrightarrow>
      loop_sos x s =
        sosFlow (sos_start x) (sos_ts x)
          (s\<lparr>lastDebounceTime := (lastDebounceTime s)[3 := sos_t x]\<rparr>) \<and>
      (loop_sos x s = Some s' \<longrightarrow>
         s' = s\<lparr>lastDebounceTime := (lastDebounceTime s)[3 := sos_t x], trace := trace s'\<rparr> \<and>
         lastActivity s' = lastActivity s \<and>
         (\<exists>rest. trace s' =
            trace s @
            [LcdClear, LcdSetCursor 0 0, LcdPrint ''!!! SOS ALERT !!!'', LcdSetCursor 0 1,
             LcdPrint ''Sending Signal..'', Delay 600] @ rest) \<and>
         lastActivity (loop_idle x s') =
           (if idle_t x - lastActivity s > IDLE_MENU_MS then idle_t2 x else lastActivity s))) \<and>
   (\<not> (sos_pins x BTN_SOS_PIN = LOW \<and> sos_t x - lastDebounceTime s ! 3 > DEBOUNCE_MS) \<longrightarrow>
      loop_sos x s = Some s) \<and>
   (fst (readBtnOnce pins now pin idx s) \<longrightarrow>
      lastActivity (snd (readBtnOnce pins now pin idx s)) = now \<and>
      trace (snd (readBtnOnce pins now pin idx s)) =
        trace s @ [DigitalWrite 8 HIGH, Delay 100, DigitalWrite 8 LOW]) \<and>
   BTN_SOS_PIN = 5 \<and> DEBOUNCE_MS = 200 \<and> IDLE_MENU_MS = 15000"
proof (intro conjI impI)
  assume c: "sos_pins x BTN_SOS_PIN = LOW \<and> sos_t x - lastDebounceTime s ! 3 > DEBOUNCE_MS"
  then show "loop_sos x s =
        sosFlow (sos_start x) (sos_ts x)
          (s\<lparr>lastDebounceTime := (lastDebounceTime s)[3 := sos_t x]\<rparr>)"
    by (simp add: loop_sos_def)
  assume so: "loop_sos x s = Some s'"
  from loop_sos_cases [OF so] c obtain es where
    s': "s' = emit (sosOpening @ es @ sosClosing)
              (s\<lparr>lastDebounceTime := (lastDebounceTime s)[3 := sos_t x]\<rparr>)"
    by blast
  show "s' = s\<lparr>lastDebounceTime := (lastDebounceTime s)[3 := sos_t x], trace := trace s'\<rparr>"
    by (simp add: s' emit_def)
  show la: "lastActivity s' = lastActivity s"
    by (simp add: s')
  have "trace s' =
            trace s @
            [LcdClear, LcdSetCursor 0 0, LcdPrint ''!!! SOS ALERT !!!'', LcdSetCursor 0 1,
             LcdPrint ''Sending Signal..'', Delay 600] @ (es @ sosClosing)"
    by (simp add: s' sosOpening_def)
  then show "\<exists>rest. trace s' =
            trace s @
            [LcdClear, LcdSetCursor 0 0, LcdPrint ''!!! SOS ALERT !!!'', LcdSetCursor 0 1,
             LcdPrint ''Sending Signal..'', Delay 600] @ rest"
    by blast
  show "lastActivity (loop_idle x s') =
           (if idle_t x - lastActivity s > IDLE_MENU_MS then idle_t2 x else lastActivity s)"
    by (simp add: loop_idle_def la)
next
  assume "\<not> (sos_pins x BTN_SOS_PIN = LOW \<and> sos_t x - lastDebounceTime s ! 3 > DEBOUNCE_MS)"
  then show "loop_sos x s = Some s"
    by (auto simp: loop_sos_def)
next
  assume a: "fst (readBtnOnce pins now pin idx s)"
  then show "lastActivity (snd (readBtnOnce pins now pin idx s)) = now"
    by (simp add: readBtnOnce_def split: if_splits)
  from a show "trace (snd (readBtnOnce pins now pin idx s)) =
        trace s @ [DigitalWrite 8 HIGH, Delay 100, DigitalWrite 8 LOW]"
    by (simp add: readBtnOnce_def shortBeep_def beepMs_def BUZZER_PIN_def split: if_splits)
next
  show "BTN_SOS_PIN = 5"
    by (simp add: BTN_SOS_PIN_def)
  show "DEBOUNCE_MS = 200"
    by (simp add: DEBOUNCE_MS_def)
  show "IDLE_MENU_MS = 15000"
    by (simp add: IDLE_MENU_MS_def)
qed

theorem sos_inline_check_witness:
  "sos_pins sosPass BTN_SOS_PIN = LOW \<and>
   sos_t sosPass - lastDebounceTime (init_state :: 16 cint state) ! 3 > DEBOUNCE_MS \<and>
   loop_sos sosPass (init_state :: 16 cint state) =
     Some (init_state
       \<lparr>lastDebounceTime := [0, 0, 0, 5000],
        trace :=
          [LcdClear, LcdSetCursor 0 0, LcdPrint ''!!! SOS ALERT !!!'', LcdSetCursor 0 1,
           LcdPrint ''Sending Signal..'', Delay 600,
           DigitalWrite 8 HIGH, Delay 100, DigitalWrite 8 LOW, Delay 200, Delay 300,
           DigitalWrite 8 HIGH, Delay 300, DigitalWrite 8 LOW, Delay 200, Delay 300,
           DigitalWrite 8 HIGH, Delay 100, DigitalWrite 8 LOW, Delay 200, Delay 300,
           LcdClear, LcdSetCursor 0 0, LcdPrint ''SOS Ended'', LcdSetCursor 0 1,
           LcdPrint ''Stay safe'', Delay 1500,
           LcdClear, LcdSetCursor 0 0, LcdPrint ''1:Memory 2:Meds'',
           LcdSetCursor 0 1, LcdPrint ''3:Exerc  4:SOS '']\<rparr>) \<and>
   lastActivity (the (loop_sos sosPass (init_state :: 16 cint state))) = 0 \<and>
   lastActivity (loop_idle sosPass (the (loop_sos sosPass (init_state :: 16 cint state)))) =
     16001 \<and>
   loop_sos quietPass (init_state :: 16 cint state) = Some init_state"
proof -
  let ?s = "init_state :: 16 cint state"
  let ?s' = "the (loop_sos sosPass ?s)"
  have c: "sos_pins sosPass BTN_SOS_PIN = LOW \<and>
      sos_t sosPass - lastDebounceTime ?s ! 3 > DEBOUNCE_MS"
    by (simp add: sosPass_def quietPass_def allLow_def init_state_def DEBOUNCE_MS_def)
  have nc: "\<not> (sos_pins quietPass BTN_SOS_PIN = LOW \<and>
      sos_t quietPass - lastDebounceTime ?s ! 3 > DEBOUNCE_MS)"
    by (simp add: quietPass_def allHigh_def)
  have ev: "loop_sos sosPass ?s =
     Some (?s
       \<lparr>lastDebounceTime := [0, 0, 0, 5000],
        trace :=
          [LcdClear, LcdSetCursor 0 0, LcdPrint ''!!! SOS ALERT !!!'', LcdSetCursor 0 1,
           LcdPrint ''Sending Signal..'', Delay 600,
           DigitalWrite 8 HIGH, Delay 100, DigitalWrite 8 LOW, Delay 200, Delay 300,
           DigitalWrite 8 HIGH, Delay 300, DigitalWrite 8 LOW, Delay 200, Delay 300,
           DigitalWrite 8 HIGH, Delay 100, DigitalWrite 8 LOW, Delay 200, Delay 300,
           LcdClear, LcdSetCursor 0 0, LcdPrint ''SOS Ended'', LcdSetCursor 0 1,
           LcdPrint ''Stay safe'', Delay 1500,
           LcdClear, LcdSetCursor 0 0, LcdPrint ''1:Memory 2:Meds'',
           LcdSetCursor 0 1, LcdPrint ''3:Exerc  4:SOS '']\<rparr>)"
    by code_simp
  then have so: "loop_sos sosPass ?s = Some ?s'"
    by simp
  have la0: "lastActivity ?s = 0"
    by (simp add: init_state_def)
  have idle: "idle_t sosPass - lastActivity ?s > IDLE_MENU_MS" "idle_t2 sosPass = 16001"
    by (simp_all add: sosPass_def quietPass_def init_state_def IDLE_MENU_MS_def)
  note A = sos_inline_check [of sosPass ?s ?s']
  note B = sos_inline_check [of quietPass ?s]
  from A c so have 1: "lastActivity ?s' = lastActivity ?s"
    by blast
  from A c so have "lastActivity (loop_idle sosPass ?s') =
      (if idle_t sosPass - lastActivity ?s > IDLE_MENU_MS then idle_t2 sosPass
       else lastActivity ?s)"
    by blast
  with idle have 2: "lastActivity (loop_idle sosPass ?s') = 16001"
    by simp
  from B nc have 3: "loop_sos quietPass ?s = Some ?s"
    by blast
  from c ev 1 [unfolded la0] 2 3 show ?thesis
    by simp
qed

subsection \<open>Pending until acknowledged\<close>

lemma check_keeps_pending:
  "i < length (meds s) \<Longrightarrow> pending (meds s ! i) \<Longrightarrow>
   meds (checkMedicinesAuto now s) ! i = meds s ! i"
  by (simp add: checkMedicinesAuto_nth due_def)

lemma check_same_day:
  "i < length (meds s) \<Longrightarrow> lastAckYMD (meds s ! i) = ymdNow now \<Longrightarrow>
   meds (checkMedicinesAuto now s) ! i = meds s ! i"
  by (simp add: checkMedicinesAuto_nth due_def)

lemma check_lastAck:
  "i < length (meds s) \<Longrightarrow>
   lastAckYMD (meds (checkMedicinesAuto now s) ! i) = lastAckYMD (meds s ! i)"
  by (simp add: checkMedicinesAuto_nth)

lemma check_fold_length [simp]:
  "length (meds (fold checkMedicinesAuto ts s)) = length (meds s)"
  by (induction ts arbitrary: s) simp_all

lemma check_fold_pending:
  "i < length (meds s) \<Longrightarrow> pending (meds s ! i) \<Longrightarrow>
   meds (fold checkMedicinesAuto ts s) ! i = meds s ! i"
proof (induction ts arbitrary: s)
  case Nil
  show ?case by simp
next
  case (Cons t ts)
  from Cons.prems have 1: "meds (checkMedicinesAuto t s) ! i = meds s ! i"
    by (rule check_keeps_pending)
  with Cons.prems have "meds (fold checkMedicinesAuto ts (checkMedicinesAuto t s)) ! i =
      meds (checkMedicinesAuto t s) ! i"
    by (intro Cons.IH) simp_all
  with 1 show ?case by simp
qed

text \<open>
  What the two medicine steps of a pass do to the table: the throttled check marks the due
  entries, and the handler runs when the medicine button is accepted (its line reads \<open>LOW\<close>
  and more than \<open>DEBOUNCE_MS\<close> have passed since the time in cell 1).
\<close>

lemma loop_schedule_nth:
  "i < length (meds s) \<Longrightarrow>
   meds (loop_schedule x s) ! i =
     (if sched_t x - lastScheduleCheck s \<ge> SCHEDULE_CHECK_MS \<and> due (sched_now x) (meds s ! i)
      then (meds s ! i)\<lparr>pending := True\<rparr> else meds s ! i)"
  by (simp add: loop_schedule_def checkMedicinesAuto_nth)

lemma loop_med_meds:
  "(\<not> (med_pins x BTN_MED_PIN = LOW \<and> med_t x - lastDebounceTime s ! 1 > DEBOUNCE_MS) \<and>
    meds (loop_med x s) = meds s) \<or>
   (med_pins x BTN_MED_PIN = LOW \<and> med_t x - lastDebounceTime s ! 1 > DEBOUNCE_MS \<and>
    ((\<exists>k. firstPendingAt (meds s) k \<and>
          meds (loop_med x s) = acknowledge (med_now x) k (meds s)) \<or>
     (nonePending (meds s) \<and> meds (loop_med x s) = meds s)))"
proof (cases "med_pins x BTN_MED_PIN = LOW \<and> med_t x - lastDebounceTime s ! 1 > DEBOUNCE_MS")
  case False
  then have "loop_med x s = s"
    by (auto simp: loop_med_def readBtnOnce_def)
  with False show ?thesis by simp
next
  case True
  let ?b = "snd (readBtnOnce (med_pins x) (med_t x) BTN_MED_PIN 1 s)"
  from True have l: "loop_med x s = confirmFirstPendingMed (med_now x) (med_rand x) ?b"
    by (simp add: loop_med_def readBtnOnce_def)
  have mb: "meds ?b = meds s"
    by simp
  from confirm_cases [of ?b "med_now x" "med_rand x"]
  have "(\<exists>k. firstPendingAt (meds s) k \<and>
          meds (loop_med x s) = acknowledge (med_now x) k (meds s)) \<or>
     (nonePending (meds s) \<and> meds (loop_med x s) = meds s)"
  proof (elim disjE exE conjE)
    fix k
    assume "firstPendingAt (meds ?b) k"
      "confirmFirstPendingMed (med_now x) (med_rand x) ?b =
        emit (taken (meds ?b ! k) (med_rand x)) (?b\<lparr>meds := acknowledge (med_now x) k (meds ?b)\<rparr>)"
    then have "firstPendingAt (meds s) k \<and>
        meds (loop_med x s) = acknowledge (med_now x) k (meds s)"
      unfolding l mb by simp
    then show ?thesis by blast
  next
    fix es
    assume "nonePending (meds ?b)"
      "confirmFirstPendingMed (med_now x) (med_rand x) ?b = emit es ?b"
    then have "nonePending (meds s) \<and> meds (loop_med x s) = meds s"
      unfolding l mb by simp
    then show ?thesis by blast
  qed
  with True show ?thesis by blast
qed

text \<open>What a pass does to entry \<open>i\<close>; \<open>a\<close> is the table after the scheduler check of the pass.\<close>

lemma loop_entry:
  assumes "loop x s = Inr s'" "i < length (meds s)"
  shows "length (meds s') = length (meds s) \<and>
    (\<exists>a. length a = length (meds s) \<and>
      (\<forall>j<length a. a ! j =
         (if sched_t x - lastScheduleCheck s \<ge> SCHEDULE_CHECK_MS \<and> due (sched_now x) (meds s ! j)
          then (meds s ! j)\<lparr>pending := True\<rparr> else meds s ! j)) \<and>
      ((\<not> (med_pins x BTN_MED_PIN = LOW \<and> med_t x - lastDebounceTime s ! 1 > DEBOUNCE_MS) \<and>
        meds s' = a) \<or>
       (med_pins x BTN_MED_PIN = LOW \<and> med_t x - lastDebounceTime s ! 1 > DEBOUNCE_MS \<and>
        ((\<exists>k. firstPendingAt a k \<and> meds s' = acknowledge (med_now x) k a) \<or>
         (nonePending a \<and> meds s' = a)))))"
proof -
  from loop_Inr [OF assms(1)] obtain s1 s2 where
    h: "handleRFID_Auto (rfid_card x) (rfid_now x) (rfid_seen x) (rfid_polls x) s = Inr s1"
    and so: "loop_sos x (loop_exercise x (loop_med x (loop_memory x (loop_schedule x s1)))) =
      Some s2"
    and s': "s' = loop_idle x s2"
    by blast
  from handleRFID_Auto_form [OF h] obtain e1 ks where
    e1: "s1 = emit e1 (s\<lparr>knownItems := ks\<rparr>)"
    by blast
  have f1: "meds s1 = meds s" "lastDebounceTime s1 = lastDebounceTime s"
    "lastScheduleCheck s1 = lastScheduleCheck s"
    by (simp_all add: e1)
  let ?a = "loop_schedule x s1"
  let ?b = "loop_memory x ?a"
  from loop_sos_cases [OF so] have "meds s2 = meds (loop_exercise x (loop_med x ?b))"
    by (elim disjE exE conjE) simp_all
  then have ms': "meds s' = meds (loop_med x ?b)"
    by (simp add: s')
  have mb: "meds ?b = meds ?a"
    by simp
  have cb: "lastDebounceTime ?b ! 1 = lastDebounceTime s ! 1"
    by (simp add: loop_memory_cell f1)
  have la: "length (meds ?a) = length (meds s)"
    by (simp add: f1)
  have na: "\<forall>j<length (meds ?a). meds ?a ! j =
         (if sched_t x - lastScheduleCheck s \<ge> SCHEDULE_CHECK_MS \<and> due (sched_now x) (meds s ! j)
          then (meds s ! j)\<lparr>pending := True\<rparr> else meds s ! j)"
    using loop_schedule_nth [of _ s1 x] by (simp add: f1)
  from loop_med_meds [of x ?b]
  have cases: "(\<not> (med_pins x BTN_MED_PIN = LOW \<and> med_t x - lastDebounceTime s ! 1 > DEBOUNCE_MS) \<and>
        meds s' = meds ?a) \<or>
       (med_pins x BTN_MED_PIN = LOW \<and> med_t x - lastDebounceTime s ! 1 > DEBOUNCE_MS \<and>
        ((\<exists>k. firstPendingAt (meds ?a) k \<and> meds s' = acknowledge (med_now x) k (meds ?a)) \<or>
         (nonePending (meds ?a) \<and> meds s' = meds ?a)))"
    unfolding ms' mb cb .
  then have "length (meds s') = length (meds ?a)"
    by (elim disjE exE conjE) (simp_all add: acknowledge_def)
  with la have "length (meds s') = length (meds s)"
    by simp
  with la na cases show ?thesis
    by blast
qed

lemma loop_same_day:
  fixes s :: "'w::len cint state"
  assumes "loop x s = Inr s'" "i < length (meds s)" "\<not> pending (meds s ! i)"
    "lastAckYMD (meds s ! i) = ymdNow (sched_now x)"
  shows "meds s' ! i = meds s ! i \<and> length (meds s') = length (meds s)"
proof -
  from loop_entry [OF assms(1,2)] obtain a where
    len: "length (meds s') = length (meds s)" and la: "length a = length (meds s)"
    and na: "\<forall>j<length a. a ! j =
         (if sched_t x - lastScheduleCheck s \<ge> SCHEDULE_CHECK_MS \<and> due (sched_now x) (meds s ! j)
          then (meds s ! j)\<lparr>pending := True\<rparr> else meds s ! j)"
    and cases: "(\<not> (med_pins x BTN_MED_PIN = LOW \<and> med_t x - lastDebounceTime s ! 1 > DEBOUNCE_MS) \<and>
        meds s' = a) \<or>
       (med_pins x BTN_MED_PIN = LOW \<and> med_t x - lastDebounceTime s ! 1 > DEBOUNCE_MS \<and>
        ((\<exists>k. firstPendingAt a k \<and> meds s' = acknowledge (med_now x) k a) \<or>
         (nonePending a \<and> meds s' = a)))"
    by blast
  from assms(4) have "\<not> due (sched_now x) (meds s ! i)"
    by (simp add: due_def)
  with na la assms(2) have ai: "a ! i = meds s ! i"
    by simp
  from cases have "meds s' ! i = a ! i"
  proof (elim disjE exE conjE)
    fix k
    assume k: "firstPendingAt a k" and m: "meds s' = acknowledge (med_now x) k a"
    from k have "pending (a ! k)" "k < length a"
      by (simp_all add: firstPendingAt_def)
    with ai assms(3) have "i \<noteq> k" by auto
    with m \<open>k < length a\<close> show ?thesis
      by (simp add: acknowledge_nth)
  qed simp_all
  with ai len show ?thesis by simp
qed

lemma run_same_day:
  fixes s :: "'w::len cint state"
  shows "run xs s = Inr s' \<Longrightarrow> i < length (meds s) \<Longrightarrow> \<not> pending (meds s ! i) \<Longrightarrow>
    lastAckYMD (meds s ! i) = ymdNow d \<Longrightarrow> \<forall>x\<in>set xs. sameDay (sched_now x) d \<Longrightarrow>
    meds s' ! i = meds s ! i"
proof (induction xs arbitrary: s)
  case Nil
  then show ?case by simp
next
  case (Cons x xs)
  from Cons.prems(1) obtain s1 where l: "loop x s = Inr s1" and r: "run xs s1 = Inr s'"
    by (cases "loop x s") simp_all
  from Cons.prems(5) have "sameDay (sched_now x) d"
    by simp
  then have "(ymdNow (sched_now x) :: 'w cint) = ymdNow d"
    by (rule sameDay_ymdNow)
  with Cons.prems(4) have "lastAckYMD (meds s ! i) = ymdNow (sched_now x)"
    by simp
  from loop_same_day [OF l Cons.prems(2,3) this]
  have 1: "meds s1 ! i = meds s ! i" "length (meds s1) = length (meds s)"
    by simp_all
  with Cons.prems have "meds s' ! i = meds s1 ! i"
    by (intro Cons.IH [OF r]) simp_all
  with 1 show ?case by simp
qed

text \<open>
  C2. Take any entry \<open>i\<close> of the table, in any state. A pending entry is left as it is by
  a scheduler check, and by any number of them. When a pass of \<open>loop\<close> finds the entry
  pending and leaves it not pending, the medicine button was accepted in that pass (line
  \<open>LOW\<close>, more than \<open>DEBOUNCE_MS\<close> since the time in cell 1), the entry was the pending entry
  of lowest index, and it now carries today's date: only the acknowledgment handler clears
  the flag. When a pass changes \<open>lastAckYMD\<close> of the entry, it was the handler that wrote
  it, and the entry is left not pending. After that, while the scheduler's clock reads the
  same day, no pass touches the entry: it stays not pending, so the handler, which stamps
  pending entries only, does not stamp it again. On a day that \<open>ymdNow\<close> encodes
  differently the check marks the entry again at its hour and minute.
\<close>

theorem pending_until_acknowledged:
  fixes s :: "'w::len cint state"
  assumes "i < length (meds s)"
  shows
    "(pending (meds s ! i) \<longrightarrow>
        meds (checkMedicinesAuto now s) ! i = meds s ! i \<and>
        meds (fold checkMedicinesAuto ts s) ! i = meds s ! i) \<and>
     (loop x s = Inr s' \<and> pending (meds s ! i) \<and> \<not> pending (meds s' ! i) \<longrightarrow>
        med_pins x BTN_MED_PIN = LOW \<and> med_t x - lastDebounceTime s ! 1 > DEBOUNCE_MS \<and>
        meds s' ! i = (meds s ! i)\<lparr>pending := False, lastAckYMD := ymdNow (med_now x)\<rparr> \<and>
        (\<forall>j<i. \<not> pending (meds s ! j))) \<and>
     (loop x s = Inr s' \<and> lastAckYMD (meds s' ! i) \<noteq> lastAckYMD (meds s ! i) \<longrightarrow>
        med_pins x BTN_MED_PIN = LOW \<and> med_t x - lastDebounceTime s ! 1 > DEBOUNCE_MS \<and>
        lastAckYMD (meds s' ! i) = ymdNow (med_now x) \<and> \<not> pending (meds s' ! i)) \<and>
     (run xs s = Inr s'' \<and> \<not> pending (meds s ! i) \<and> lastAckYMD (meds s ! i) = ymdNow d \<and>
      (\<forall>x\<in>set xs. sameDay (sched_now x) d) \<longrightarrow>
        meds s'' ! i = meds s ! i) \<and>
     (\<not> pending (meds s ! i) \<and> lastAckYMD (meds s ! i) \<noteq> ymdNow now \<and>
      dt_hour now = hour (meds s ! i) \<and> dt_minute now = minute (meds s ! i) \<longrightarrow>
        pending (meds (checkMedicinesAuto now s) ! i)) \<and>
     BTN_MED_PIN = 3 \<and> DEBOUNCE_MS = 200"
proof (intro conjI impI)
  assume p: "pending (meds s ! i)"
  with assms show "meds (checkMedicinesAuto now s) ! i = meds s ! i"
    by (rule check_keeps_pending)
  from assms p show "meds (fold checkMedicinesAuto ts s) ! i = meds s ! i"
    by (rule check_fold_pending)
next
  assume h: "loop x s = Inr s' \<and> pending (meds s ! i) \<and> \<not> pending (meds s' ! i)"
  then have l: "loop x s = Inr s'" by simp
  from loop_entry [OF l assms] obtain a where
    la: "length a = length (meds s)"
    and na: "\<forall>j<length a. a ! j =
         (if sched_t x - lastScheduleCheck s \<ge> SCHEDULE_CHECK_MS \<and> due (sched_now x) (meds s ! j)
          then (meds s ! j)\<lparr>pending := True\<rparr> else meds s ! j)"
    and cases: "(\<not> (med_pins x BTN_MED_PIN = LOW \<and> med_t x - lastDebounceTime s ! 1 > DEBOUNCE_MS) \<and>
        meds s' = a) \<or>
       (med_pins x BTN_MED_PIN = LOW \<and> med_t x - lastDebounceTime s ! 1 > DEBOUNCE_MS \<and>
        ((\<exists>k. firstPendingAt a k \<and> meds s' = acknowledge (med_now x) k a) \<or>
         (nonePending a \<and> meds s' = a)))"
    by blast
  from h have "\<not> due (sched_now x) (meds s ! i)"
    by (simp add: due_def)
  with na la assms have ai: "a ! i = meds s ! i"
    by simp
  have keep: "\<not> pending (meds s ! j)" if "j < length a" "\<not> pending (a ! j)" for j
    using na that by (auto split: if_splits)
  from h ai have pa: "pending (a ! i)" "meds s' \<noteq> a"
    by auto
  with cases la assms have acc: "med_pins x BTN_MED_PIN = LOW \<and>
      med_t x - lastDebounceTime s ! 1 > DEBOUNCE_MS"
    and "\<exists>k. firstPendingAt a k \<and> meds s' = acknowledge (med_now x) k a"
    by (auto simp: nonePending_nth)
  then obtain k where k: "firstPendingAt a k" "meds s' = acknowledge (med_now x) k a"
    by blast
  then have kl: "k < length a" by (simp add: firstPendingAt_def)
  have "k = i"
  proof (rule ccontr)
    assume "k \<noteq> i"
    with k(2) kl have "meds s' ! i = a ! i"
      by (simp add: acknowledge_nth)
    with pa h show False by simp
  qed
  from acc show "med_pins x BTN_MED_PIN = LOW" "med_t x - lastDebounceTime s ! 1 > DEBOUNCE_MS"
    by simp_all
  from k(2) kl \<open>k = i\<close> ai
  show "meds s' ! i = (meds s ! i)\<lparr>pending := False, lastAckYMD := ymdNow (med_now x)\<rparr>"
    by (simp add: acknowledge_nth)
  show "\<forall>j<i. \<not> pending (meds s ! j)"
  proof (intro allI impI)
    fix j assume "j < i"
    with k(1) \<open>k = i\<close> kl have "\<not> pending (a ! j)" "j < length a"
      by (simp_all add: firstPendingAt_def)
    then show "\<not> pending (meds s ! j)"
      using keep by blast
  qed
next
  assume h: "loop x s = Inr s' \<and> lastAckYMD (meds s' ! i) \<noteq> lastAckYMD (meds s ! i)"
  then have l: "loop x s = Inr s'" by simp
  from loop_entry [OF l assms] obtain a where
    la: "length a = length (meds s)"
    and na: "\<forall>j<length a. a ! j =
         (if sched_t x - lastScheduleCheck s \<ge> SCHEDULE_CHECK_MS \<and> due (sched_now x) (meds s ! j)
          then (meds s ! j)\<lparr>pending := True\<rparr> else meds s ! j)"
    and cases: "(\<not> (med_pins x BTN_MED_PIN = LOW \<and> med_t x - lastDebounceTime s ! 1 > DEBOUNCE_MS) \<and>
        meds s' = a) \<or>
       (med_pins x BTN_MED_PIN = LOW \<and> med_t x - lastDebounceTime s ! 1 > DEBOUNCE_MS \<and>
        ((\<exists>k. firstPendingAt a k \<and> meds s' = acknowledge (med_now x) k a) \<or>
         (nonePending a \<and> meds s' = a)))"
    by blast
  from na la assms have ai: "lastAckYMD (a ! i) = lastAckYMD (meds s ! i)"
    by simp
  with h have ne: "meds s' \<noteq> a"
    by auto
  with cases have acc: "med_pins x BTN_MED_PIN = LOW \<and>
      med_t x - lastDebounceTime s ! 1 > DEBOUNCE_MS"
    and "\<exists>k. firstPendingAt a k \<and> meds s' = acknowledge (med_now x) k a"
    by auto
  then obtain k where k: "firstPendingAt a k" "meds s' = acknowledge (med_now x) k a"
    by blast
  then have kl: "k < length a" by (simp add: firstPendingAt_def)
  have "k = i"
  proof (rule ccontr)
    assume "k \<noteq> i"
    with k(2) kl have "meds s' ! i = a ! i"
      by (simp add: acknowledge_nth)
    with ai h show False by simp
  qed
  from acc show "med_pins x BTN_MED_PIN = LOW" "med_t x - lastDebounceTime s ! 1 > DEBOUNCE_MS"
    by simp_all
  from k(2) kl \<open>k = i\<close> show "lastAckYMD (meds s' ! i) = ymdNow (med_now x)"
    by (simp add: acknowledge_nth)
  from k(2) kl \<open>k = i\<close> show "\<not> pending (meds s' ! i)"
    by (simp add: acknowledge_nth)
next
  assume "run xs s = Inr s'' \<and> \<not> pending (meds s ! i) \<and> lastAckYMD (meds s ! i) = ymdNow d \<and>
      (\<forall>x\<in>set xs. sameDay (sched_now x) d)"
  with assms show "meds s'' ! i = meds s ! i"
    by (intro run_same_day [of xs s s'' i d]) simp_all
next
  assume "\<not> pending (meds s ! i) \<and> lastAckYMD (meds s ! i) \<noteq> ymdNow now \<and>
      dt_hour now = hour (meds s ! i) \<and> dt_minute now = minute (meds s ! i)"
  with assms show "pending (meds (checkMedicinesAuto now s) ! i)"
    by (simp add: checkMedicinesAuto_nth due_def)
next
  show "BTN_MED_PIN = 3"
    by (simp add: BTN_MED_PIN_def)
  show "DEBOUNCE_MS = 200"
    by (simp add: DEBOUNCE_MS_def)
qed

theorem pending_until_acknowledged_witness:
  "loop duePass init_state = Inr dueState \<and>
   meds dueState =
     [\<lparr>name = ''BP Tablet'', hour = 8, minute = 0, pending = True, lastAckYMD = 0\<rparr>,
      \<lparr>name = ''Vitamin D'', hour = 13, minute = 30, pending = False, lastAckYMD = 0\<rparr>,
      \<lparr>name = ''Insulin'', hour = 18, minute = 0, pending = False, lastAckYMD = 0\<rparr>,
      \<lparr>name = ''Calcium'', hour = 22, minute = 0, pending = False, lastAckYMD = 0\<rparr>] \<and>
   meds (checkMedicinesAuto at_080030 dueState) ! 0 = meds dueState ! 0 \<and>
   meds (fold checkMedicinesAuto [at_080030, at_0900, aug30_0800] dueState) ! 0 =
     meds dueState ! 0 \<and>
   loop ackPass dueState = Inr ackState \<and>
   med_pins ackPass 3 = LOW \<and> med_t ackPass - lastDebounceTime dueState ! 1 > 200 \<and>
   meds ackState ! 0 =
     \<lparr>name = ''BP Tablet'', hour = 8, minute = 0, pending = False, lastAckYMD = 205\<rparr> \<and>
   \<not> isl (run [recheckPass, laterPass] ackState) \<and>
   meds (projr (run [recheckPass, laterPass] ackState)) ! 0 = meds ackState ! 0 \<and>
   pending (meds (checkMedicinesAuto aug30_0800 ackState) ! 0)"
proof -
  have m1: "meds dueState =
     [\<lparr>name = ''BP Tablet'', hour = 8, minute = 0, pending = True, lastAckYMD = 0\<rparr>,
      \<lparr>name = ''Vitamin D'', hour = 13, minute = 30, pending = False, lastAckYMD = 0\<rparr>,
      \<lparr>name = ''Insulin'', hour = 18, minute = 0, pending = False, lastAckYMD = 0\<rparr>,
      \<lparr>name = ''Calcium'', hour = 22, minute = 0, pending = False, lastAckYMD = 0\<rparr>]"
    by code_simp
  have i0: "\<not> isl (loop duePass (init_state :: 16 cint state))"
    by code_simp
  have e0: "loop duePass init_state = Inr dueState"
    using i0 unfolding dueState_def by (cases "loop duePass (init_state :: 16 cint state)") simp_all
  have i1: "\<not> isl (loop ackPass dueState)"
    by code_simp
  have e1: "loop ackPass dueState = Inr ackState"
    using i1 unfolding ackState_def by (cases "loop ackPass dueState") simp_all
  have p2: "\<not> pending (meds ackState ! 0)"
    by code_simp
  have l2: "length (meds ackState) = 4"
    by code_simp
  have h2: "hour (meds ackState ! 0) = 8" "minute (meds ackState ! 0) = 0"
    by code_simp+
  have i2: "\<not> isl (run [recheckPass, laterPass] ackState)"
    by code_simp
  have e2: "run [recheckPass, laterPass] ackState =
      Inr (projr (run [recheckPass, laterPass] ackState))"
    using i2 by (cases "run [recheckPass, laterPass] ackState") simp_all
  have y: "(ymdNow at_080030 :: 16 cint) = 205" "(ymdNow at_0800 :: 16 cint) = 205"
    "(ymdNow aug30_0800 :: 16 cint) = 206"
    by code_simp+
  have sd: "\<forall>x\<in>set [recheckPass, laterPass]. sameDay (sched_now x) at_0800"
    by (simp add: sameDay_def recheckPass_def laterPass_def quietPass_def at_0800_def
        at_080030_def at_0900_def)
  have mn: "med_now ackPass = at_080030"
    by (simp add: ackPass_def)
  note A = pending_until_acknowledged [where i = 0 and s = dueState and now = at_080030 and
      ts = "[at_080030, at_0900, aug30_0800]" and x = ackPass and s' = ackState]
  note B = pending_until_acknowledged [where i = 0 and s = ackState and now = aug30_0800 and
      xs = "[recheckPass, laterPass]" and
      s'' = "projr (run [recheckPass, laterPass] ackState)" and d = at_0800]
  have a0: "0 < length (meds dueState)" "pending (meds dueState ! 0)"
    by (simp_all add: m1)
  from A a0 have c1: "meds (checkMedicinesAuto at_080030 dueState) ! 0 = meds dueState ! 0"
    "meds (fold checkMedicinesAuto [at_080030, at_0900, aug30_0800] dueState) ! 0 =
       meds dueState ! 0"
    by blast+
  from A a0 e1 p2 have c2: "med_pins ackPass BTN_MED_PIN = LOW"
    "med_t ackPass - lastDebounceTime dueState ! 1 > DEBOUNCE_MS"
    "meds ackState ! 0 =
       (meds dueState ! 0)\<lparr>pending := False, lastAckYMD := ymdNow (med_now ackPass)\<rparr>"
    by blast+
  from A a0 have k: "BTN_MED_PIN = 3" "DEBOUNCE_MS = 200"
    by blast+
  from c2(3) have c3: "meds ackState ! 0 =
     \<lparr>name = ''BP Tablet'', hour = 8, minute = 0, pending = False, lastAckYMD = 205\<rparr>"
    by (simp add: m1 mn y)
  have b0: "0 < length (meds ackState)"
    by (simp add: l2)
  have la: "lastAckYMD (meds ackState ! 0) = ymdNow at_0800"
    by (simp add: c3 y)
  from B b0 e2 p2 la sd
  have c4: "meds (projr (run [recheckPass, laterPass] ackState)) ! 0 = meds ackState ! 0"
    by blast
  have "lastAckYMD (meds ackState ! 0) \<noteq> ymdNow aug30_0800"
    by (simp add: c3 y)
  moreover have "dt_hour aug30_0800 = hour (meds ackState ! 0)"
    "dt_minute aug30_0800 = minute (meds ackState ! 0)"
    by (simp_all add: c3 aug30_0800_def)
  ultimately have c5: "pending (meds (checkMedicinesAuto aug30_0800 ackState) ! 0)"
    using B b0 p2 by blast
  from e0 m1 c1 e1 c2(1,2) k c3 i2 c4 c5 show ?thesis
    by simp
qed

end
